theory Spec2Isabelle
  imports Complex_Main "HOL-Library.AList"
begin

section \<open>Data model of \<open>graphs/_data.py\<close>\<close>

text \<open>
  Instants (\<open>datetime.datetime\<close>) are modelled as integers on one time line. Python
  dictionaries are association lists with distinct keys in insertion order:
  \<open>map_of\<close> reads a key, \<open>AList.update\<close> stores one (in place for an existing key, at
  the end for a new one), and two dictionaries are equal in Python when their
  \<open>map_of\<close> agree. Field names that occur in several classes are written qualified
  (\<open>Channel.name\<close>, \<open>InternalChannelUpdates.name\<close>); \<open>id\<close> of a channel is \<open>channel_id\<close>
  and the keys of a \<open>ToolCall\<close> dictionary are \<open>call_id\<close>, \<open>call_name\<close>, \<open>call_args\<close>.
  The classes \<open>HumanMessage_\<close>, \<open>AIMessage_\<close> and \<open>SystemMessage_\<close> are the constructors
  \<open>HumanMessage'\<close>, \<open>AIMessage'\<close> and \<open>SystemMessage'\<close> (a name cannot end in an underscore).
\<close>

type_synonym datetime = int

datatype ToolCallStatus =
  unconfirmed | confirmed | canceled | rejected | processing | completed | failed

datatype ExternalStatus = error | success

fun EXTERNAL_STATUS_MAPPING :: "ToolCallStatus \<Rightarrow> ExternalStatus" where
  "EXTERNAL_STATUS_MAPPING unconfirmed = error"
| "EXTERNAL_STATUS_MAPPING confirmed = error"
| "EXTERNAL_STATUS_MAPPING canceled = error"
| "EXTERNAL_STATUS_MAPPING rejected = error"
| "EXTERNAL_STATUS_MAPPING processing = error"
| "EXTERNAL_STATUS_MAPPING completed = success"
| "EXTERNAL_STATUS_MAPPING failed = error"

record InternalToolMessage =
  tool_call_id :: string
  internal_status :: ToolCallStatus
  status :: ExternalStatus
  content :: "string option"

definition set_status ::
  "ToolCallStatus \<Rightarrow> string option \<Rightarrow> InternalToolMessage \<Rightarrow> InternalToolMessage" where
  "set_status new_status new_content tm =
     (let tm1 = tm\<lparr>internal_status := new_status,
                     status := EXTERNAL_STATUS_MAPPING new_status\<rparr>
      in case new_content of
           None \<Rightarrow> tm1
         | Some c \<Rightarrow> tm1\<lparr>InternalToolMessage.content := Some c\<rparr>)"

record ToolCall =
  call_id :: string
  call_name :: string
  call_args :: "(string \<times> string) list"

datatype StructuredMessage =
    is_HumanMessage: HumanMessage'
      (content: string) (date: datetime) (summary: "string option")
      (author: "string option") (message_id: "int option")
  | is_AIMessage: AIMessage'
      (content: string) (date: datetime) (summary: "string option")
      (activity: string) (tool_calls: "ToolCall list")
      (internal_tool_messages: "(string \<times> InternalToolMessage) list")
  | is_SystemMessage: SystemMessage'
      (content: string) (date: datetime) (summary: "string option")
      (author: "string option") (lifespan: "int option")

text \<open>The assignment \<open>message.date = d\<close>.\<close>

fun set_date :: "datetime \<Rightarrow> StructuredMessage \<Rightarrow> StructuredMessage" where
  "set_date d (HumanMessage' c _ s a i) = HumanMessage' c d s a i"
| "set_date d (AIMessage' c _ s act tcs itms) = AIMessage' c d s act tcs itms"
| "set_date d (SystemMessage' c _ s a l) = SystemMessage' c d s a l"

record Summary =
  max_date :: datetime
  min_date :: datetime
  summary :: string

record InternalChannelUpdates =
  name :: "string option"
  channel_type :: "string option"
  wakeup_url :: "string option"
  delete_before :: "datetime option"
  no_reactive_tool_call_before :: "datetime option"
  no_temporary_message_before :: "datetime option"
  new_messages :: "StructuredMessage list"
  message_updates :: "(int \<times> StructuredMessage) list"
  message_deletes :: "int list"
  message_append_left :: "StructuredMessage list"
  new_summaries :: "Summary list"

record InternalUpdates =
  channel_updates :: "(string \<times> InternalChannelUpdates) list"
  current_channel :: "string option"
  tool_updates :: "InternalToolMessage list"

record Channel =
  channel_id :: string
  name :: string
  channel_type :: string
  wakeup_url :: "string option"
  messages :: "StructuredMessage list"
  summaries :: "(datetime \<times> Summary list) list"
  last_activity :: datetime
  max_summary_date :: datetime
  no_reactive_tool_call_before :: "datetime option"
  no_temporary_message_before :: "datetime option"

record History =
  current_channel :: "string option"
  channels :: "(string \<times> Channel) list"

text \<open>
  \<open>Channel(id=i, name=n)\<close>: the other fields take their defaults; the two
  \<open>default_factory=datetime.datetime.now\<close> fields read the clock, here \<open>now\<close>.
\<close>

definition new_Channel :: "datetime \<Rightarrow> string \<Rightarrow> string \<Rightarrow> Channel" where
  "new_Channel now i n =
     \<lparr>channel_id = i, Channel.name = n, Channel.channel_type = ''basic'',
      Channel.wakeup_url = None, messages = [], summaries = [],
      last_activity = now, max_summary_date = now,
      Channel.no_reactive_tool_call_before = None,
      Channel.no_temporary_message_before = None\<rparr>"

definition empty_History :: History where
  "empty_History = \<lparr>History.current_channel = None, channels = []\<rparr>"

definition is_empty :: "History \<Rightarrow> bool" where
  "is_empty h \<longleftrightarrow> History.current_channel h = None \<and> length (channels h) = 0"

section \<open>Exceptions and Python list indexing\<close>

text \<open>
  Every \<open>raise\<close> of the modelled code, and the exceptions Python itself raises on a list
  index or a dictionary key, are values of \<open>py_error\<close>:
  \<^item> \<open>MessageIdOutOfBounds i c n\<close> is \<open>ValueError("Message ID i out of bounds for channel c
    messages of length n.")\<close>;
  \<^item> \<open>LocatedMessageNotAI\<close> is \<open>ValueError("Located message is not an AIMessage_")\<close>;
  \<^item> \<open>NoLocationForToolCall\<close> is \<open>ValueError("Could not find location for tool call")\<close>;
  \<^item> \<open>CouldNotFindIndex\<close> is the \<open>ValueError\<close> of \<open>assemble_messages\<close>;
  \<^item> \<open>IndexError\<close>, \<open>KeyError\<close>, \<open>AttributeError\<close> and \<open>UnboundLocalError\<close> are Python's
    own.
\<close>

datatype py_error =
    MessageIdOutOfBounds int string nat
  | LocatedMessageNotAI
  | NoLocationForToolCall
  | CouldNotFindIndex
  | IndexError
  | KeyError
  | AttributeError
  | UnboundLocalError

text \<open>
  \<open>xs[i]\<close> for a Python integer \<open>i\<close>: a negative index counts from the end, anything
  outside \<open>-len(xs) \<le> i < len(xs)\<close> raises \<open>IndexError\<close> (here \<open>None\<close>).
\<close>

definition py_index :: "'a list \<Rightarrow> int \<Rightarrow> nat option" where
  "py_index xs i =
     (let n = int (length xs)
      in if 0 \<le> i \<and> i < n then Some (nat i)
         else if - n \<le> i \<and> i < 0 then Some (nat (n + i))
         else None)"

text \<open>\<open>max(...)\<close> and \<open>min(...)\<close> of a non-empty sequence.\<close>

definition py_max :: "'a::linorder list \<Rightarrow> 'a" where
  "py_max xs = fold max (tl xs) (hd xs)"

definition py_min :: "'a::linorder list \<Rightarrow> 'a" where
  "py_min xs = fold min (tl xs) (hd xs)"

section \<open>The history reducer: per-channel updates\<close>

text \<open>Step 2, the loop over \<open>message_updates.items()\<close>.\<close>

fun apply_message_updates ::
  "string \<Rightarrow> StructuredMessage list \<Rightarrow> (int \<times> StructuredMessage) list
     \<Rightarrow> py_error + StructuredMessage list" where
  "apply_message_updates cid msgs [] = Inr msgs"
| "apply_message_updates cid msgs ((mid, message_update) # rest) =
     (if mid < int (length msgs) then
        (case py_index msgs mid of
           None \<Rightarrow> Inl IndexError
         | Some k \<Rightarrow>
             apply_message_updates cid
               (msgs[k := set_date (date (msgs ! k)) message_update]) rest)
      else Inl (MessageIdOutOfBounds mid cid (length msgs)))"

text \<open>Step 3, the loop over \<open>sorted(message_deletes, reverse=True)\<close>.\<close>

fun delete_indices :: "StructuredMessage list \<Rightarrow> int list \<Rightarrow> py_error + StructuredMessage list" where
  "delete_indices msgs [] = Inr msgs"
| "delete_indices msgs (message_index # rest) =
     (if message_index < int (length msgs) then
        (case py_index msgs message_index of
           None \<Rightarrow> Inl IndexError
         | Some k \<Rightarrow> delete_indices (take k msgs @ drop (Suc k) msgs) rest)
      else delete_indices msgs rest)"

definition apply_message_deletes ::
  "StructuredMessage list \<Rightarrow> int list \<Rightarrow> py_error + StructuredMessage list" where
  "apply_message_deletes msgs dels = delete_indices msgs (rev (sort dels))"

text \<open>Step 3, the \<open>delete_before\<close> cutoff with the recomputation of \<open>max_summary_date\<close>.\<close>

definition apply_delete_before :: "datetime \<Rightarrow> datetime \<Rightarrow> Channel \<Rightarrow> Channel" where
  "apply_delete_before now cutoff channel =
     (let msgs = filter (\<lambda>msg. date msg \<ge> cutoff) (messages channel);
          kept_summaries = filter (\<lambda>(most_recent_message_date, summaries_list). most_recent_message_date \<ge> cutoff)
                   (summaries channel);
          all_summary_dates = concat (map (\<lambda>(most_recent_message_date, summaries_list). map min_date summaries_list) kept_summaries)
      in channel\<lparr>messages := msgs, summaries := kept_summaries,
                 max_summary_date :=
                   (if kept_summaries \<noteq> [] then
                      (if all_summary_dates \<noteq> [] then py_min all_summary_dates
                       else max_summary_date channel)
                    else now)\<rparr>)"

text \<open>Step 4, the loop over \<open>message_append_left\<close>.\<close>

fun append_left :: "StructuredMessage list \<Rightarrow> StructuredMessage list \<Rightarrow> StructuredMessage list" where
  "append_left msgs [] = msgs"
| "append_left msgs (new_message # rest) =
     append_left
       ((if msgs \<noteq> [] \<and> date new_message > date (hd msgs)
         then set_date (date (hd msgs)) new_message else new_message) # msgs)
       rest"

text \<open>Step 5, the loop over \<open>new_messages\<close> with the flag \<open>needs_sorting\<close>, then the sort.\<close>

fun append_new ::
  "StructuredMessage list \<Rightarrow> bool \<Rightarrow> StructuredMessage list \<Rightarrow> StructuredMessage list \<times> bool" where
  "append_new msgs needs_sorting [] = (msgs, needs_sorting)"
| "append_new msgs needs_sorting (new_message # rest) =
     append_new (msgs @ [new_message])
       (if length msgs \<ge> 1 \<and> date new_message < date (last msgs) then True else needs_sorting)
       rest"

definition add_new_messages ::
  "StructuredMessage list \<Rightarrow> StructuredMessage list \<Rightarrow> StructuredMessage list" where
  "add_new_messages msgs news =
     (case append_new msgs False news of
        (msgs', needs_sorting) \<Rightarrow> if needs_sorting then sort_key date msgs' else msgs')"

text \<open>Step 7, the loop over \<open>new_summaries\<close>.\<close>

fun add_summaries ::
  "(datetime \<times> Summary list) list \<Rightarrow> Summary list \<Rightarrow> (datetime \<times> Summary list) list" where
  "add_summaries kept_summaries [] = kept_summaries"
| "add_summaries kept_summaries (new_summary # rest) =
     add_summaries
       (case map_of kept_summaries (max_date new_summary) of
          None \<Rightarrow> AList.update (max_date new_summary) [new_summary] kept_summaries
        | Some l \<Rightarrow> AList.update (max_date new_summary) (sort_key min_date (l @ [new_summary])) kept_summaries)
       rest"

text \<open>
  Steps 1.5 and 8, the metadata: step 1.5 assigns every field that is not \<open>None\<close>, step 8
  assigns again every field that is truthy (a non-empty string; every \<open>datetime\<close> is
  truthy).
\<close>

definition apply_metadata :: "InternalChannelUpdates \<Rightarrow> Channel \<Rightarrow> Channel" where
  "apply_metadata cu channel =
     (let c1 = (case InternalChannelUpdates.name cu of None \<Rightarrow> channel
                | Some v \<Rightarrow> channel\<lparr>Channel.name := v\<rparr>);
          c2 = (case InternalChannelUpdates.channel_type cu of None \<Rightarrow> c1
                | Some v \<Rightarrow> c1\<lparr>Channel.channel_type := v\<rparr>);
          c3 = (case InternalChannelUpdates.wakeup_url cu of None \<Rightarrow> c2
                | Some v \<Rightarrow> c2\<lparr>Channel.wakeup_url := Some v\<rparr>);
          c4 = (case InternalChannelUpdates.no_reactive_tool_call_before cu of None \<Rightarrow> c3
                | Some v \<Rightarrow> c3\<lparr>Channel.no_reactive_tool_call_before := Some v\<rparr>)
      in (case InternalChannelUpdates.no_temporary_message_before cu of None \<Rightarrow> c4
          | Some v \<Rightarrow> c4\<lparr>Channel.no_temporary_message_before := Some v\<rparr>))"

definition apply_truthy_metadata :: "InternalChannelUpdates \<Rightarrow> Channel \<Rightarrow> Channel" where
  "apply_truthy_metadata cu channel =
     (let c1 = (case InternalChannelUpdates.name cu of None \<Rightarrow> channel
                | Some v \<Rightarrow> if v \<noteq> [] then channel\<lparr>Channel.name := v\<rparr> else channel);
          c2 = (case InternalChannelUpdates.channel_type cu of None \<Rightarrow> c1
                | Some v \<Rightarrow> if v \<noteq> [] then c1\<lparr>Channel.channel_type := v\<rparr> else c1);
          c3 = (case InternalChannelUpdates.wakeup_url cu of None \<Rightarrow> c2
                | Some v \<Rightarrow> if v \<noteq> [] then c2\<lparr>Channel.wakeup_url := Some v\<rparr> else c2);
          c4 = (case InternalChannelUpdates.no_reactive_tool_call_before cu of None \<Rightarrow> c3
                | Some v \<Rightarrow> c3\<lparr>Channel.no_reactive_tool_call_before := Some v\<rparr>)
      in (case InternalChannelUpdates.no_temporary_message_before cu of None \<Rightarrow> c4
          | Some v \<Rightarrow> c4\<lparr>Channel.no_temporary_message_before := Some v\<rparr>))"

text \<open>Steps 5 to 8 on the channel, after the messages have been updated and deleted.\<close>

definition apply_additions :: "InternalChannelUpdates \<Rightarrow> Channel \<Rightarrow> Channel" where
  "apply_additions cu channel =
     (let c4 = channel\<lparr>messages := append_left (messages channel) (message_append_left cu)\<rparr>;
          c5 = c4\<lparr>messages := add_new_messages (messages c4) (new_messages cu)\<rparr>;
          c6 = (if new_messages cu \<noteq> []
                then c5\<lparr>last_activity := py_max (map date (new_messages cu))\<rparr> else c5);
          c7 = (if new_summaries cu \<noteq> [] then
                  (let c = c6\<lparr>summaries := add_summaries (summaries c6) (new_summaries cu)\<rparr>;
                       earliest_new_summary_date = py_max (map max_date (new_summaries cu))
                   in if earliest_new_summary_date > max_summary_date c
                      then c\<lparr>max_summary_date := earliest_new_summary_date\<rparr> else c)
                else c6)
      in apply_truthy_metadata cu c7)"

text \<open>The body of the loop over \<open>right.channel_updates.items()\<close>, on the channel.\<close>

definition apply_channel_updates ::
  "datetime \<Rightarrow> string \<Rightarrow> InternalChannelUpdates \<Rightarrow> Channel \<Rightarrow> py_error + Channel" where
  "apply_channel_updates now cid cu channel =
     (let c1 = apply_metadata cu channel
      in case apply_message_updates cid (messages c1) (message_updates cu) of
           Inl e \<Rightarrow> Inl e
         | Inr msgs2 \<Rightarrow>
            (case apply_message_deletes msgs2 (message_deletes cu) of
               Inl e \<Rightarrow> Inl e
             | Inr msgs3 \<Rightarrow>
                (let c3 = c1\<lparr>messages := msgs3\<rparr>;
                     c3' = (case delete_before cu of None \<Rightarrow> c3
                            | Some cutoff \<Rightarrow> apply_delete_before now cutoff c3)
                 in Inr (apply_additions cu c3'))))"

text \<open>
  The loop over \<open>right.channel_updates.items()\<close> on the copy of the history: a missing
  channel is created first.
\<close>

fun apply_all_channel_updates ::
  "datetime \<Rightarrow> History \<Rightarrow> (string \<times> InternalChannelUpdates) list \<Rightarrow> py_error + History" where
  "apply_all_channel_updates now left [] = Inr left"
| "apply_all_channel_updates now left ((cid, cu) # rest) =
     (let channel = (case map_of (channels left) cid of
                       None \<Rightarrow> new_Channel now cid cid
                     | Some c \<Rightarrow> c)
      in case apply_channel_updates now cid cu channel of
           Inl e \<Rightarrow> Inl e
         | Inr channel' \<Rightarrow>
             apply_all_channel_updates now
               (left\<lparr>channels := AList.update cid channel' (channels left)\<rparr>) rest)"

section \<open>Locating tool calls\<close>

definition get_current_channel :: "datetime \<Rightarrow> History \<Rightarrow> Channel" where
  "get_current_channel now h =
     (case History.current_channel h of
        None \<Rightarrow> new_Channel now ''unregistered'' ''Unregistered Channel''
      | Some c \<Rightarrow>
          (case map_of (channels h) c of
             Some channel \<Rightarrow> channel
           | None \<Rightarrow> new_Channel now c c))"

text \<open>
  \<open>locate_tool_calls\<close> keeps a queue of the ids still looked for and the dictionary
  \<open>results\<close>, which holds every requested id from the start, with the value \<open>None\<close>
  until the id is found: \<open>results\<close> is a map whose \<open>None\<close> is that value.

  The innermost loop, over the keys of \<open>message.internal_tool_messages\<close>:
\<close>

type_synonym locations = "string \<rightharpoonup> string \<times> nat"

fun scan_keys ::
  "string \<Rightarrow> nat \<Rightarrow> string list \<Rightarrow> string list \<times> locations \<Rightarrow> string list \<times> locations" where
  "scan_keys cid index [] st = st"
| "scan_keys cid index (tid # tids) (id_queue, results) =
     scan_keys cid index tids
       (if tid \<in> set id_queue then (remove1 tid id_queue, results(tid \<mapsto> (cid, index)))
        else (id_queue, results))"

text \<open>The loop over \<open>enumerate(current_channel.messages)\<close>.\<close>

fun scan_messages ::
  "string \<Rightarrow> nat \<Rightarrow> StructuredMessage list \<Rightarrow> string list \<times> locations
     \<Rightarrow> string list \<times> locations" where
  "scan_messages cid index [] st = st"
| "scan_messages cid index (message # rest) st =
     scan_messages cid (Suc index) rest
       (case message of
          AIMessage' c d s act tcs itms \<Rightarrow>
            if tcs \<noteq> [] then scan_keys cid index (map fst itms) st else st
        | HumanMessage' c d s a i \<Rightarrow> st
        | SystemMessage' c d s a l \<Rightarrow> st)"

text \<open>The loop over \<open>self.channels.items()\<close> that looks for the next channel.\<close>

fun next_channel ::
  "string list \<Rightarrow> (string \<times> Channel) list \<Rightarrow> Channel option \<Rightarrow> Channel option" where
  "next_channel checked_channels [] current = current"
| "next_channel checked_channels ((cid, channel) # rest) current =
     next_channel checked_channels rest
       (if cid \<in> set checked_channels then current
        else (case current of
                None \<Rightarrow> Some channel
              | Some c \<Rightarrow> if last_activity channel > last_activity c then Some channel
                          else current))"

text \<open>
  The \<open>while current_channel\<close> loop. It may run forever (a channel stored under a key
  other than its \<open>id\<close> is never marked as checked), so it returns an option and not
  returning is \<open>None\<close>.
\<close>

partial_function (option) locate_loop ::
  "(string \<times> Channel) list \<Rightarrow> Channel \<Rightarrow> string list \<Rightarrow> string list \<Rightarrow> locations
     \<Rightarrow> locations option" where
  [code]: "locate_loop chans current checked_channels id_queue results =
     (case scan_messages (channel_id current) 0 (messages current) (id_queue, results) of
        (id_queue', results') \<Rightarrow>
          if id_queue' \<noteq> [] then
            (case next_channel (checked_channels @ [channel_id current]) chans None of
               None \<Rightarrow> Some results'
             | Some c \<Rightarrow>
                 locate_loop chans c (checked_channels @ [channel_id current]) id_queue' results')
          else Some results')"

definition locate_tool_calls :: "datetime \<Rightarrow> History \<Rightarrow> string list \<Rightarrow> locations option" where
  "locate_tool_calls now h tool_call_ids =
     locate_loop (channels h) (get_current_channel now h) [] tool_call_ids Map.empty"

section \<open>The history reducer: tool updates\<close>

text \<open>
  \<open>SystemMessage_(content=f"#toolupdated#{id}", lifespan=1)\<close>; its \<open>date\<close> defaults to
  the clock.
\<close>

definition toolupdated_message :: "datetime \<Rightarrow> string \<Rightarrow> StructuredMessage" where
  "toolupdated_message now tid = SystemMessage' (''#toolupdated#'' @ tid) now None None (Some 1)"

text \<open>
  The body of the loop over \<open>right.tool_updates\<close>. Reading \<open>left.channels[channel_id]\<close>,
  \<open>channel.messages[message_index]\<close> and \<open>message.internal_tool_messages[id]\<close> raises
  when the key or the index is missing. \<open>tool_update.content if tool_update.content else
  None\<close> passes no content for an empty string.
\<close>

definition apply_tool_update ::
  "datetime \<Rightarrow> locations \<Rightarrow> History \<Rightarrow> InternalToolMessage \<Rightarrow> py_error + History" where
  "apply_tool_update now positions left tool_update =
     (case positions (tool_call_id tool_update) of
        None \<Rightarrow> Inr left
      | Some (cid, message_index) \<Rightarrow>
         (case map_of (channels left) cid of
            None \<Rightarrow> Inl KeyError
          | Some channel \<Rightarrow>
             if message_index \<ge> length (messages channel) then Inl IndexError
             else
              (case messages channel ! message_index of
                 AIMessage' c d s act tcs itms \<Rightarrow>
                  (case map_of itms (tool_call_id tool_update) of
                     None \<Rightarrow> Inl KeyError
                   | Some tool_message \<Rightarrow>
                      (let new_content =
                             (case InternalToolMessage.content tool_update of
                                None \<Rightarrow> None
                              | Some txt \<Rightarrow> if txt \<noteq> [] then Some txt else None);
                           tool_message' =
                             set_status (internal_status tool_update) new_content tool_message;
                           message' =
                             AIMessage' c d s act tcs
                               (AList.update (tool_call_id tool_update) tool_message' itms);
                           msgs = (messages channel)[message_index := message'];
                           temp_message = toolupdated_message now (tool_call_id tool_update);
                           msgs' =
                             (if int message_index < int (length msgs) - 1 then
                                msgs @ [if msgs \<noteq> [] \<and> date temp_message < date (last msgs)
                                        then set_date (date (last msgs)) temp_message
                                        else temp_message]
                              else msgs)
                       in Inr (left\<lparr>channels :=
                                 AList.update cid (channel\<lparr>messages := msgs'\<rparr>) (channels left)\<rparr>)))
               | HumanMessage' c d s a i \<Rightarrow> Inl LocatedMessageNotAI
               | SystemMessage' c d s a l \<Rightarrow> Inl LocatedMessageNotAI)))"

fun apply_tool_updates ::
  "datetime \<Rightarrow> locations \<Rightarrow> History \<Rightarrow> InternalToolMessage list \<Rightarrow> py_error + History" where
  "apply_tool_updates now positions left [] = Inr left"
| "apply_tool_updates now positions left (tool_update # rest) =
     (case apply_tool_update now positions left tool_update of
        Inl e \<Rightarrow> Inl e
      | Inr left' \<Rightarrow> apply_tool_updates now positions left' rest)"

section \<open>The history reducer\<close>

text \<open>
  Branch 4 of \<open>history_reducer\<close>, for an \<open>InternalUpdates\<close>. It works on
  \<open>left.model_copy(deep=True)\<close>, so the caller's history is never written to: the
  model takes the history as a value and returns the new one, or the exception. Every
  read of the clock during one application is the instant \<open>now\<close>. The result is \<open>None\<close>
  when the search for the tool calls does not return.
\<close>

definition apply_internal_updates ::
  "datetime \<Rightarrow> History \<Rightarrow> InternalUpdates \<Rightarrow> (py_error + History) option" where
  "apply_internal_updates now left right =
     (case apply_all_channel_updates now left (channel_updates right) of
        Inl e \<Rightarrow> Some (Inl e)
      | Inr left1 \<Rightarrow>
         (let left2 = (case InternalUpdates.current_channel right of
                         None \<Rightarrow> left1
                       | Some c \<Rightarrow> left1\<lparr>History.current_channel := Some c\<rparr>)
          in if tool_updates right \<noteq> [] then
               (case locate_tool_calls now left2 (map tool_call_id (tool_updates right)) of
                  None \<Rightarrow> None
                | Some positions \<Rightarrow>
                    Some (apply_tool_updates now positions left2 (tool_updates right)))
             else Some (Inr left2)))"

text \<open>
  The right-hand values of the reducer: the command \<open>"reset"\<close>, a \<open>History\<close>, an
  \<open>InternalUpdates\<close>. A \<open>dict\<close> is validated into an \<open>InternalUpdates\<close> and reduced as
  one. The left-hand value may be \<open>None\<close>.
\<close>

datatype reducer_input = Reset | Replace History | Updates InternalUpdates

definition history_reducer ::
  "datetime \<Rightarrow> History option \<Rightarrow> reducer_input \<Rightarrow> (py_error + History) option" where
  "history_reducer now left0 right =
     (let left = (case left0 of None \<Rightarrow> empty_History | Some h \<Rightarrow> h)
      in case right of
           Reset \<Rightarrow> Some (Inr empty_History)
         | Replace r \<Rightarrow> Some (Inr (if is_empty left then r else left))
         | Updates u \<Rightarrow> apply_internal_updates now left u)"

section \<open>Properties and scenarios\<close>

text \<open>
  The exceptions that report an index out of range: Python's \<open>IndexError\<close> and the
  reducer's own \<open>ValueError\<close> for a \<open>message_updates\<close> index beyond the list.
\<close>

definition index_error :: "py_error \<Rightarrow> bool" where
  "index_error e \<longleftrightarrow>
     e = IndexError \<or> (\<exists>i c n. e = MessageIdOutOfBounds i c n \<and> i \<ge> int n)"

text \<open>\<open>InternalChannelUpdates()\<close> and \<open>InternalUpdates()\<close>, with every field at its default.\<close>

definition default_channel_updates :: InternalChannelUpdates where
  "default_channel_updates =
     \<lparr>InternalChannelUpdates.name = None, InternalChannelUpdates.channel_type = None,
      InternalChannelUpdates.wakeup_url = None, delete_before = None,
      InternalChannelUpdates.no_reactive_tool_call_before = None,
      InternalChannelUpdates.no_temporary_message_before = None,
      new_messages = [], message_updates = [], message_deletes = [],
      message_append_left = [], new_summaries = []\<rparr>"

definition default_updates :: InternalUpdates where
  "default_updates =
     \<lparr>channel_updates = [], InternalUpdates.current_channel = None, tool_updates = []\<rparr>"

text \<open>Scenario S2: a channel with messages dated 10 and 30, and a new message dated 20.\<close>

definition msg_at :: "datetime \<Rightarrow> StructuredMessage" where
  "msg_at d = HumanMessage' ''m'' d None None None"

definition S2_history :: History where
  "S2_history =
     \<lparr>History.current_channel = None,
      channels = [(''c1'', (new_Channel 30 ''c1'' ''c1'')\<lparr>messages := [msg_at 10, msg_at 30]\<rparr>)]\<rparr>"

definition S2_updates :: InternalUpdates where
  "S2_updates =
     default_updates\<lparr>channel_updates :=
       [(''c1'', default_channel_updates\<lparr>new_messages := [msg_at 20]\<rparr>)]\<rparr>"

text \<open>The history of scenario S2 after the reducer has applied the new message.\<close>

definition S2_channel_after :: Channel where
  "S2_channel_after =
     (new_Channel 30 ''c1'' ''c1'')
       \<lparr>messages := [msg_at 10, msg_at 20, msg_at 30], last_activity := 20\<rparr>"

definition S2_after :: History where
  "S2_after = \<lparr>History.current_channel = None, channels = [(''c1'', S2_channel_after)]\<rparr>"

section \<open>The tool execution thread of \<open>graphs/_mcp.py\<close>\<close>

text \<open>
  A \<open>ToolMessage\<close> of the tool library carries \<open>tool_call_id\<close>, \<open>status\<close> and \<open>content\<close>,
  here \<open>tm_tool_call_id\<close>, \<open>tm_status\<close> and \<open>tm_content\<close>; the \<open>status\<close> of an
  \<open>MCPResponse\<close> is \<open>mcp_status\<close>, one of \<open>processing\<close>, \<open>completed\<close>, \<open>failed\<close>.
  \<open>response_time\<close> is a float, modelled as a real number.
\<close>

record ToolMessage =
  tm_tool_call_id :: string
  tm_status :: ExternalStatus
  tm_content :: string

record MCPRequest =
  tool_call :: ToolCall
  ignore_webhook_on_quick_completion :: bool
  webhook :: "string option"
  created_at :: datetime

record MCPResponse =
  tool_message :: ToolMessage
  response_time :: real
  updates :: "InternalUpdates option"
  mcp_status :: ToolCallStatus

text \<open>
  The state of an \<open>MCPThread\<close>: the keys of \<open>pending_requests\<close> in insertion order (the
  values are the running tasks) and \<open>terminal_responses\<close>. Two requests are the same key
  when their tool calls have the same id (\<open>__eq__\<close> and \<open>__hash__\<close> of \<open>MCPRequest\<close>).
\<close>

record MCPThread =
  pending_requests :: "MCPRequest list"
  terminal_responses :: "MCPResponse list"

definition same_request :: "MCPRequest \<Rightarrow> MCPRequest \<Rightarrow> bool" where
  "same_request a b \<longleftrightarrow> call_id (tool_call a) = call_id (tool_call b)"

text \<open>\<open>add_request\<close>: \<open>self.pending_requests[request] = task\<close>.\<close>

definition add_request :: "MCPRequest \<Rightarrow> MCPThread \<Rightarrow> MCPThread" where
  "add_request request thread =
     (if \<exists>r \<in> set (pending_requests thread). same_request r request then thread
      else thread\<lparr>pending_requests := pending_requests thread @ [request]\<rparr>)"

text \<open>
  The end of \<open>_process_request\<close>: the response built from the result of the tool (or from
  the exception, \<open>Inl\<close> its text), and the \<open>finally\<close> block that stores it and removes the
  request; \<open>del\<close> raises \<open>KeyError\<close> when the request is not pending.
\<close>

definition build_response ::
  "real \<Rightarrow> MCPRequest \<Rightarrow> string + ToolMessage \<times> InternalUpdates option \<Rightarrow> MCPResponse" where
  "build_response elapsed request outcome =
     (case outcome of
        Inr (result, upd) \<Rightarrow>
          \<lparr>tool_message = result, response_time = elapsed, updates = upd,
           mcp_status = (if tm_status result = success then completed else failed)\<rparr>
      | Inl e \<Rightarrow>
          \<lparr>tool_message =
             \<lparr>tm_tool_call_id = call_id (tool_call request), tm_status = error,
              tm_content = ''MCP Failed to execute the tool: '' @ e\<rparr>,
           response_time = elapsed, updates = None, mcp_status = failed\<rparr>)"

definition finish_request :: "MCPRequest \<Rightarrow> MCPResponse \<Rightarrow> MCPThread \<Rightarrow> py_error + MCPThread" where
  "finish_request request response thread =
     (if \<exists>r \<in> set (pending_requests thread). same_request r request then
        Inr \<lparr>pending_requests = filter (\<lambda>r. \<not> same_request r request) (pending_requests thread),
             terminal_responses = terminal_responses thread @ [response]\<rparr>
      else Inl KeyError)"

text \<open>
  \<open>current_responses\<close>. The response synthesized for a pending request; \<open>monotonic\<close> is
  the reading of \<open>time.monotonic()\<close> at that moment.
\<close>

definition processing_response :: "real \<Rightarrow> MCPRequest \<Rightarrow> MCPResponse" where
  "processing_response monotonic request =
     \<lparr>tool_message =
        \<lparr>tm_tool_call_id = call_id (tool_call request), tm_status = success,
         tm_content =
           ''Tool is being executed on the MCP server, this message will be updated once done.''\<rparr>,
      response_time = monotonic - of_int (created_at request),
      updates = None, mcp_status = processing\<rparr>"

text \<open>
  The loop over \<open>pending\<close>; \<open>clock k\<close> is what \<open>time.monotonic()\<close> returns in iteration
  \<open>k\<close>.
\<close>

fun add_processing ::
  "(nat \<Rightarrow> real) \<Rightarrow> nat \<Rightarrow> MCPRequest list \<Rightarrow> MCPResponse list \<Rightarrow> MCPResponse list" where
  "add_processing clock k [] responses = responses"
| "add_processing clock k (request # rest) responses =
     add_processing clock (Suc k) rest (responses @ [processing_response (clock k) request])"

text \<open>
  Under the lock the method copies \<open>terminal_responses\<close>, lists the pending requests and
  clears \<open>terminal_responses\<close>; then it appends the synthesized responses. It returns the
  responses, and the thread is left with no terminal response.
\<close>

definition current_responses :: "(nat \<Rightarrow> real) \<Rightarrow> MCPThread \<Rightarrow> MCPResponse list \<times> MCPThread" where
  "current_responses clock thread =
     (let responses = terminal_responses thread;
          pending = pending_requests thread;
          thread' = thread\<lparr>terminal_responses := []\<rparr>
      in (add_processing clock 0 pending responses, thread'))"

text \<open>The ordering invariant: the messages of every channel are sorted by date.\<close>

definition sorted_channel :: "Channel \<Rightarrow> bool" where
  "sorted_channel c \<longleftrightarrow> sorted (map date (messages c))"

definition sorted_history :: "History \<Rightarrow> bool" where
  "sorted_history h \<longleftrightarrow> (\<forall>(cid, c) \<in> set (channels h). sorted_channel c)"

text \<open>
  A history as the reducer builds it: every channel is stored under its own \<open>id\<close> (and the
  keys of the dictionary are distinct). \<open>hosts m tid\<close>: the message is an \<open>AIMessage_\<close>
  that has \<open>tid\<close> among the keys of its \<open>internal_tool_messages\<close>. \<open>valid_locations\<close>: every
  location found points at a message of the history that hosts the tool call.
\<close>

definition wf_history :: "History \<Rightarrow> bool" where
  "wf_history h \<longleftrightarrow>
     distinct (map fst (channels h)) \<and> (\<forall>(cid, c) \<in> set (channels h). channel_id c = cid)"

definition hosts :: "StructuredMessage \<Rightarrow> string \<Rightarrow> bool" where
  "hosts m tid \<longleftrightarrow> is_AIMessage m \<and> tid \<in> set (map fst (internal_tool_messages m))"

definition valid_locations :: "(string \<times> Channel) list \<Rightarrow> locations \<Rightarrow> bool" where
  "valid_locations chans results \<longleftrightarrow>
     (\<forall>tid cid i. results tid = Some (cid, i) \<longrightarrow>
        (\<exists>ch. map_of chans cid = Some ch \<and> i < length (messages ch) \<and> hosts (messages ch ! i) tid))"

text \<open>\<open>present h tid\<close>: some message of some channel of the history hosts the tool call.\<close>

definition present :: "History \<Rightarrow> string \<Rightarrow> bool" where
  "present h tid \<longleftrightarrow> (\<exists>(cid, c) \<in> set (channels h). \<exists>m \<in> set (messages c). hosts m tid)"

text \<open>
  Scenario S1: channel \<open>c1\<close> with a human message and an agent message whose tool call
  \<open>t1\<close> is unconfirmed; the adapter confirms it. \<open>S1_confirmed\<close> is the history after it.
\<close>

definition S1_tool_state :: InternalToolMessage where
  "S1_tool_state =
     \<lparr>tool_call_id = ''t1'', internal_status = unconfirmed, status = error,
      InternalToolMessage.content = Some ''Waiting for user to confirm on the UI before running.''\<rparr>"

definition S1_agent :: StructuredMessage where
  "S1_agent =
     AIMessage' '''' 1 None ''conversing''
       [\<lparr>call_id = ''t1'', call_name = ''x'', call_args = []\<rparr>] [(''t1'', S1_tool_state)]"

definition S1_channel :: Channel where
  "S1_channel =
     (new_Channel 1 ''c1'' ''c1'')
       \<lparr>messages := [HumanMessage' ''do x'' 0 None None None, S1_agent]\<rparr>"

definition S1_history :: History where
  "S1_history = \<lparr>History.current_channel = Some ''c1'', channels = [(''c1'', S1_channel)]\<rparr>"

definition S1_confirm :: InternalToolMessage where
  "S1_confirm =
     \<lparr>tool_call_id = ''t1'', internal_status = confirmed, status = error,
      InternalToolMessage.content = None\<rparr>"

definition S1_confirmed :: History where
  "S1_confirmed =
     \<lparr>History.current_channel = Some ''c1'',
      channels = [(''c1'', S1_channel\<lparr>messages :=
        [HumanMessage' ''do x'' 0 None None None,
         AIMessage' '''' 1 None ''conversing''
           [\<lparr>call_id = ''t1'', call_name = ''x'', call_args = []\<rparr>]
           [(''t1'', S1_tool_state\<lparr>internal_status := confirmed\<rparr>)]]\<rparr>)]\<rparr>"

section \<open>Accumulating updates: \<open>merge\<close> and \<open>internal_updates_reducer\<close>\<close>

text \<open>\<open>dict.update\<close>: every entry of the second dictionary is stored into the first.\<close>

definition dict_update :: "('k \<times> 'v) list \<Rightarrow> ('k \<times> 'v) list \<Rightarrow> ('k \<times> 'v) list" where
  "dict_update d other = fold (\<lambda>(k, v) acc. AList.update k v acc) other d"

definition merge :: "InternalChannelUpdates \<Rightarrow> InternalChannelUpdates \<Rightarrow> InternalChannelUpdates" where
  "merge self other =
     \<lparr>InternalChannelUpdates.name =
        (case InternalChannelUpdates.name other of
           None \<Rightarrow> InternalChannelUpdates.name self | Some v \<Rightarrow> Some v),
      InternalChannelUpdates.channel_type =
        (case InternalChannelUpdates.channel_type other of
           None \<Rightarrow> InternalChannelUpdates.channel_type self | Some v \<Rightarrow> Some v),
      InternalChannelUpdates.wakeup_url =
        (case InternalChannelUpdates.wakeup_url other of
           None \<Rightarrow> InternalChannelUpdates.wakeup_url self | Some v \<Rightarrow> Some v),
      delete_before =
        (case delete_before other of None \<Rightarrow> delete_before self | Some v \<Rightarrow> Some v),
      InternalChannelUpdates.no_reactive_tool_call_before =
        (case InternalChannelUpdates.no_reactive_tool_call_before other of
           None \<Rightarrow> InternalChannelUpdates.no_reactive_tool_call_before self | Some v \<Rightarrow> Some v),
      InternalChannelUpdates.no_temporary_message_before =
        (case InternalChannelUpdates.no_temporary_message_before other of
           None \<Rightarrow> InternalChannelUpdates.no_temporary_message_before self | Some v \<Rightarrow> Some v),
      new_messages = new_messages self @ new_messages other,
      message_updates = dict_update (message_updates self) (message_updates other),
      message_deletes = message_deletes self @ message_deletes other,
      message_append_left = message_append_left self @ message_append_left other,
      new_summaries = new_summaries self @ new_summaries other\<rparr>"

text \<open>The loop of \<open>internal_updates_reducer\<close> over \<open>right.channel_updates.items()\<close>.\<close>

fun merge_channel_updates ::
  "(string \<times> InternalChannelUpdates) list \<Rightarrow> (string \<times> InternalChannelUpdates) list
     \<Rightarrow> (string \<times> InternalChannelUpdates) list" where
  "merge_channel_updates left_cus [] = left_cus"
| "merge_channel_updates left_cus ((cid, cu) # rest) =
     merge_channel_updates
       (AList.update cid
          (merge (case map_of left_cus cid of None \<Rightarrow> default_channel_updates
                  | Some existing_updates \<Rightarrow> existing_updates) cu)
          left_cus)
       rest"

text \<open>
  The right-hand values of \<open>internal_updates_reducer\<close>: the command \<open>"reset"\<close> or an
  \<open>InternalUpdates\<close>; the left-hand value may be \<open>None\<close>.
\<close>

datatype updates_input = ResetUpdates | MoreUpdates InternalUpdates

definition internal_updates_reducer :: "InternalUpdates option \<Rightarrow> updates_input \<Rightarrow> InternalUpdates" where
  "internal_updates_reducer left0 right =
     (case right of
        ResetUpdates \<Rightarrow> default_updates
      | MoreUpdates r \<Rightarrow>
         (let left = (case left0 of None \<Rightarrow> default_updates | Some l \<Rightarrow> l)
          in \<lparr>channel_updates = merge_channel_updates (channel_updates left) (channel_updates r),
              InternalUpdates.current_channel =
                (case InternalUpdates.current_channel r of
                   None \<Rightarrow> InternalUpdates.current_channel left | Some c \<Rightarrow> Some c),
              tool_updates = tool_updates left @ tool_updates r\<rparr>))"

section \<open>\<open>History.generate_updates_from_mcp_responses\<close>\<close>

text \<open>
  The method sets the tool state inside the message it found, in place: the history it
  is called on changes, and the model returns it next to the updates. \<open>cached_messages\<close>
  starts as the empty dictionary and the method has no statement that stores into it; the
  model threads it through the loop all the same, with the branch that reads it. In that
  branch \<open>channel_id\<close> and \<open>index\<close> are the variables bound by an earlier iteration
  (\<open>UnboundLocalError\<close> when there was none), and the cached message is a value of its
  own.

  \<open>message.internal_tool_messages[tool_call_id].set_status(...)\<close> on a message:
\<close>

definition set_tool_state :: "MCPResponse \<Rightarrow> StructuredMessage \<Rightarrow> py_error + StructuredMessage" where
  "set_tool_state mcpresp message =
     (case message of
        AIMessage' c d s act tcs itms \<Rightarrow>
          (case map_of itms (tm_tool_call_id (tool_message mcpresp)) of
             None \<Rightarrow> Inl KeyError
           | Some tm \<Rightarrow>
               Inr (AIMessage' c d s act tcs
                      (AList.update (tm_tool_call_id (tool_message mcpresp))
                         (set_status (mcp_status mcpresp)
                            (Some (tm_content (tool_message mcpresp))) tm)
                         itms)))
      | HumanMessage' c d s a i \<Rightarrow> Inl AttributeError
      | SystemMessage' c d s a l \<Rightarrow> Inl AttributeError)"

text \<open>\<open>updates.channel_updates[channel_id].new_messages.append(m)\<close>, the entry made first.\<close>

definition append_new_message ::
  "string \<Rightarrow> StructuredMessage \<Rightarrow> InternalUpdates \<Rightarrow> InternalUpdates" where
  "append_new_message cid m upd =
     (let cu = (case map_of (channel_updates upd) cid of
                  None \<Rightarrow> default_channel_updates | Some cu \<Rightarrow> cu)
      in upd\<lparr>channel_updates :=
           AList.update cid (cu\<lparr>new_messages := new_messages cu @ [m]\<rparr>) (channel_updates upd)\<rparr>)"

text \<open>\<open>updates.channel_updates[channel_id].message_updates[index] = message\<close>.\<close>

definition store_message_update ::
  "string \<Rightarrow> nat \<Rightarrow> StructuredMessage \<Rightarrow> InternalUpdates \<Rightarrow> InternalUpdates" where
  "store_message_update cid index m upd =
     (let cu = (case map_of (channel_updates upd) cid of
                  None \<Rightarrow> default_channel_updates | Some cu \<Rightarrow> cu)
      in upd\<lparr>channel_updates :=
           AList.update cid
             (cu\<lparr>message_updates := AList.update (int index) m (message_updates cu)\<rparr>)
             (channel_updates upd)\<rparr>)"

type_synonym message_cache = "((string \<times> nat) \<times> StructuredMessage) list"

text \<open>
  The end of the loop body: the transient message when the message at \<open>index\<close> is not the
  last of \<open>self.channels[channel_id]\<close>.
\<close>

definition note_tool_update ::
  "datetime \<Rightarrow> string \<Rightarrow> string \<Rightarrow> nat \<Rightarrow> History \<Rightarrow> InternalUpdates \<Rightarrow> py_error + InternalUpdates" where
  "note_tool_update now tid cid index self upd =
     (case map_of (channels self) cid of
        None \<Rightarrow> Inl KeyError
      | Some ch \<Rightarrow>
          Inr (if int index < int (length (messages ch)) - 1
               then append_new_message cid (toolupdated_message now tid) upd
               else upd))"

text \<open>The loop over the responses.\<close>

fun generate_loop ::
  "datetime \<Rightarrow> locations \<Rightarrow> MCPResponse list
     \<Rightarrow> History \<times> InternalUpdates \<times> message_cache \<times> (string \<times> nat) option
     \<Rightarrow> py_error + History \<times> InternalUpdates \<times> message_cache \<times> (string \<times> nat) option" where
  "generate_loop now update_locations [] st = Inr st"
| "generate_loop now update_locations (mcpresp # rest) (self, upd, cached_messages, bound) =
     (case update_locations (tm_tool_call_id (tool_message mcpresp)) of
        None \<Rightarrow> Inl NoLocationForToolCall
      | Some location \<Rightarrow>
         (case map_of cached_messages location of
            Some message \<Rightarrow>
              (case bound of
                 None \<Rightarrow> Inl UnboundLocalError
               | Some (cid, index) \<Rightarrow>
                  (case set_tool_state mcpresp message of
                     Inl e \<Rightarrow> Inl e
                   | Inr message' \<Rightarrow>
                      (case note_tool_update now (tm_tool_call_id (tool_message mcpresp))
                              cid index self upd of
                         Inl e \<Rightarrow> Inl e
                       | Inr upd' \<Rightarrow>
                           generate_loop now update_locations rest
                             (self, upd', AList.update location message' cached_messages,
                              Some (cid, index)))))
          | None \<Rightarrow>
              (case location of
                 (cid, index) \<Rightarrow>
                  (case map_of (channels self) cid of
                     None \<Rightarrow> Inl KeyError
                   | Some ch \<Rightarrow>
                      if index \<ge> length (messages ch) then Inl IndexError
                      else
                       (case set_tool_state mcpresp (messages ch ! index) of
                          Inl e \<Rightarrow> Inl e
                        | Inr message' \<Rightarrow>
                           (let self' = self\<lparr>channels :=
                                  AList.update cid
                                    (ch\<lparr>messages := (messages ch)[index := message']\<rparr>)
                                    (channels self)\<rparr>
                            in case note_tool_update now
                                      (tm_tool_call_id (tool_message mcpresp))
                                      cid index self' upd of
                                 Inl e \<Rightarrow> Inl e
                               | Inr upd' \<Rightarrow>
                                   generate_loop now update_locations rest
                                     (self', upd', cached_messages, Some (cid, index))))))))"

text \<open>The loop \<open>for location, message in cached_messages.items()\<close>.\<close>

fun register_message_updates :: "message_cache \<Rightarrow> InternalUpdates \<Rightarrow> InternalUpdates" where
  "register_message_updates [] upd = upd"
| "register_message_updates (((cid, index), message) # rest) upd =
     register_message_updates rest (store_message_update cid index message upd)"

text \<open>The loop that merges the updates carried by the responses.\<close>

fun register_response_updates :: "MCPResponse list \<Rightarrow> InternalUpdates \<Rightarrow> InternalUpdates" where
  "register_response_updates [] upd = upd"
| "register_response_updates (response # rest) upd =
     register_response_updates rest
       (case updates response of
          None \<Rightarrow> upd
        | Some u \<Rightarrow> internal_updates_reducer (Some upd) (MoreUpdates u))"

text \<open>
  The method: the history after the call and the updates returned, or the exception;
  \<open>None\<close> when the search for the tool calls does not return.
\<close>

definition generate_updates_from_mcp_responses ::
  "datetime \<Rightarrow> History \<Rightarrow> MCPResponse list \<Rightarrow> (py_error + History \<times> InternalUpdates) option" where
  "generate_updates_from_mcp_responses now self responses =
     (case locate_tool_calls now self
             (map (\<lambda>response. tm_tool_call_id (tool_message response)) responses) of
        None \<Rightarrow> None
      | Some update_locations \<Rightarrow>
          Some (case generate_loop now update_locations responses
                       (self, default_updates, [], None) of
                  Inl e \<Rightarrow> Inl e
                | Inr (self', upd, cached_messages, bound) \<Rightarrow>
                    Inr (self',
                         register_response_updates responses
                           (register_message_updates cached_messages upd))))"

text \<open>
  Scenario S1 continued: the tool thread answers \<open>completed\<close> with content \<open>ok\<close> for \<open>t1\<close>;
  \<open>S1_completed\<close> is the history once the tool state is set. \<open>t9\<close> is a tool call id that no
  message of the history hosts.
\<close>

definition S1_response :: MCPResponse where
  "S1_response =
     \<lparr>tool_message = \<lparr>tm_tool_call_id = ''t1'', tm_status = success, tm_content = ''ok''\<rparr>,
      response_time = 1, updates = None, mcp_status = completed\<rparr>"

definition S1_completed :: History where
  "S1_completed =
     \<lparr>History.current_channel = Some ''c1'',
      channels = [(''c1'', S1_channel\<lparr>messages :=
        [HumanMessage' ''do x'' 0 None None None,
         AIMessage' '''' 1 None ''conversing''
           [\<lparr>call_id = ''t1'', call_name = ''x'', call_args = []\<rparr>]
           [(''t1'', \<lparr>tool_call_id = ''t1'', internal_status = completed, status = success,
                     InternalToolMessage.content = Some ''ok''\<rparr>)]]\<rparr>)]\<rparr>"

definition unknown_response :: MCPResponse where
  "unknown_response =
     \<lparr>tool_message = \<lparr>tm_tool_call_id = ''t9'', tm_status = success, tm_content = ''ok''\<rparr>,
      response_time = 1, updates = None, mcp_status = completed\<rparr>"

definition unknown_update :: InternalToolMessage where
  "unknown_update =
     \<lparr>tool_call_id = ''t9'', internal_status = confirmed, status = error,
      InternalToolMessage.content = None\<rparr>"

text \<open>
  Two histories are equal (field by field, the dictionaries as dictionaries) when they
  have the same current channel and the same channel under every key. \<open>then_reduce\<close>
  applies a second \<open>InternalUpdates\<close> to the outcome of a first application: an exception
  of the first ends the run. \<open>set_current\<close> is step 9 of the reducer. \<open>other_channel_updates\<close>
  is a diff for a channel \<open>c2\<close> that scenario S2 does not touch.
\<close>

definition same_history :: "History \<Rightarrow> History \<Rightarrow> bool" where
  "same_history a b \<longleftrightarrow>
     History.current_channel a = History.current_channel b \<and>
     map_of (channels a) = map_of (channels b)"

definition then_reduce ::
  "(py_error + History) option \<Rightarrow> datetime \<Rightarrow> InternalUpdates \<Rightarrow> (py_error + History) option" where
  "then_reduce r now u =
     (case r of
        Some (Inr h) \<Rightarrow> history_reducer now (Some h) (Updates u)
      | Some (Inl e) \<Rightarrow> Some (Inl e)
      | None \<Rightarrow> None)"

definition set_current :: "InternalUpdates \<Rightarrow> History \<Rightarrow> History" where
  "set_current u h = (case InternalUpdates.current_channel u of None \<Rightarrow> h
                      | Some c \<Rightarrow> h\<lparr>History.current_channel := Some c\<rparr>)"

definition other_channel_updates :: InternalUpdates where
  "other_channel_updates =
     \<lparr>channel_updates = [(''c2'', default_channel_updates\<lparr>new_messages := [msg_at 40]\<rparr>)],
      InternalUpdates.current_channel = Some ''c2'', tool_updates = []\<rparr>"

section \<open>Assembling messages and summaries: \<open>graphs/_formatting.py\<close>\<close>













section \<open>The reducer as its caller sees it\<close>









section \<open>Scenarios for tool updates and for the order of updates\<close>

text \<open>
  Scenario S3: on the history of scenario S1 the adapter sends, in one \<open>InternalUpdates\<close>, a
  new human message for channel \<open>c1\<close>, the current channel, and two tool updates, one for
  the unknown tool call \<open>t9\<close> and the confirmation of \<open>t1\<close>. \<open>S3_history\<close> is the history
  once the channel diff is applied, \<open>S3_after\<close> the history the reducer returns.
\<close>

definition S3_updates :: InternalUpdates where
  "S3_updates =
     \<lparr>channel_updates = [(''c1'', default_channel_updates\<lparr>new_messages := [msg_at 2]\<rparr>)],
      InternalUpdates.current_channel = Some ''c1'',
      tool_updates = [unknown_update, S1_confirm]\<rparr>"

definition S3_channel :: Channel where
  "S3_channel =
     S1_channel\<lparr>messages := [HumanMessage' ''do x'' 0 None None None, S1_agent, msg_at 2],
                last_activity := 2\<rparr>"

definition S3_history :: History where
  "S3_history = \<lparr>History.current_channel = Some ''c1'', channels = [(''c1'', S3_channel)]\<rparr>"

definition S3_after :: History where
  "S3_after =
     \<lparr>History.current_channel = Some ''c1'',
      channels = [(''c1'', S3_channel\<lparr>messages :=
        [HumanMessage' ''do x'' 0 None None None,
         AIMessage' '''' 1 None ''conversing''
           [\<lparr>call_id = ''t1'', call_name = ''x'', call_args = []\<rparr>]
           [(''t1'', S1_tool_state\<lparr>internal_status := confirmed\<rparr>)],
         msg_at 2,
         SystemMessage' ''#toolupdated#t1'' 5 None None (Some 1)]\<rparr>)]\<rparr>"

text \<open>
  \<open>locate_tool_calls\<close> looks at the agent messages that have tool calls: \<open>hosts_call m tid\<close>
  when \<open>m\<close> is one of them and has \<open>tid\<close> among the keys of its \<open>internal_tool_messages\<close>;
  \<open>findable h tid\<close> when some message of some channel of the history is.
\<close>

definition hosts_call :: "StructuredMessage \<Rightarrow> string \<Rightarrow> bool" where
  "hosts_call m tid \<longleftrightarrow> hosts m tid \<and> tool_calls m \<noteq> []"

definition channel_hosts_call :: "Channel \<Rightarrow> string \<Rightarrow> bool" where
  "channel_hosts_call ch tid \<longleftrightarrow> (\<exists>m \<in> set (messages ch). hosts_call m tid)"

definition findable :: "History \<Rightarrow> string \<Rightarrow> bool" where
  "findable h tid \<longleftrightarrow>
     (\<exists>(cid, c) \<in> set (channels h). \<exists>m \<in> set (messages c). hosts_call m tid)"

text \<open>
  Two updates that each create a channel, \<open>a\<close> and \<open>b\<close>, and the histories obtained from the
  empty history when the first application reads the clock at 100 and the second at 101.
\<close>

definition create_a :: InternalUpdates where
  "create_a = default_updates\<lparr>channel_updates := [(''a'', default_channel_updates)]\<rparr>"

definition create_b :: InternalUpdates where
  "create_b = default_updates\<lparr>channel_updates := [(''b'', default_channel_updates)]\<rparr>"

definition a_then_b :: History where
  "a_then_b =
     \<lparr>History.current_channel = None,
      channels = [(''a'', new_Channel 100 ''a'' ''a''), (''b'', new_Channel 101 ''b'' ''b'')]\<rparr>"

definition b_then_a :: History where
  "b_then_a =
     \<lparr>History.current_channel = None,
      channels = [(''b'', new_Channel 100 ''b'' ''b''), (''a'', new_Channel 101 ''a'' ''a'')]\<rparr>"

text \<open>
  The channel loop stores a reading of the clock in two places: in \<open>last_activity\<close> and
  \<open>max_summary_date\<close> of a channel it creates, and in \<open>max_summary_date\<close> when \<open>delete_before\<close>
  leaves no summary. \<open>no_clock_reading h u\<close>: every channel that \<open>u\<close> has a diff for exists
  in \<open>h\<close>, and no diff of \<open>u\<close> sets \<open>delete_before\<close>. \<open>S2_two_channels\<close> is the history of
  scenario S2 with a second channel \<open>c2\<close>.
\<close>

definition no_clock_reading :: "History \<Rightarrow> InternalUpdates \<Rightarrow> bool" where
  "no_clock_reading h u \<longleftrightarrow>
     (\<forall>(cid, cu) \<in> set (channel_updates u).
        map_of (channels h) cid \<noteq> None \<and> delete_before cu = None)"

definition S2_two_channels :: History where
  "S2_two_channels =
     \<lparr>History.current_channel = None,
      channels = [(''c1'', (new_Channel 30 ''c1'' ''c1'')\<lparr>messages := [msg_at 10, msg_at 30]\<rparr>),
                  (''c2'', new_Channel 35 ''c2'' ''c2'')]\<rparr>"

section \<open>Sizes of the items of \<open>assemble_messages\<close>\<close>







section \<open>The per-channel loop\<close>

lemma set_update_subset: "set (AList.update k v al) \<subseteq> insert (k, v) (set al)"
  by (induct al) auto

lemma py_max_Max: "xs \<noteq> [] \<Longrightarrow> py_max xs = Max (set xs)"
  by (cases xs) (simp_all add: py_max_def Max.set_eq_fold[symmetric])

lemma index_error_IndexError [simp]: "index_error IndexError"
  by (simp add: index_error_def)

lemma apply_message_updates_length:
  "apply_message_updates cid msgs ups = Inr msgs' \<Longrightarrow> length msgs' = length msgs"
  by (induction cid msgs ups rule: apply_message_updates.induct)
     (auto split: if_splits option.splits)





lemma messages_apply_metadata [simp]: "messages (apply_metadata cu ch) = messages ch"
  by (simp add: apply_metadata_def Let_def split: option.splits)


lemma apply_all_untouched:
  "apply_all_channel_updates now H cus = Inr H' \<Longrightarrow> cid \<notin> fst ` set cus \<Longrightarrow>
   map_of (channels H') cid = map_of (channels H) cid"
  by (induction cus arbitrary: H) (auto split: sum.splits simp: update_conv' Let_def)

lemma apply_all_current_channel:
  "apply_all_channel_updates now H cus = Inr H' \<Longrightarrow>
   History.current_channel H' = History.current_channel H"
  by (induction cus arbitrary: H) (auto split: sum.splits simp: Let_def)



lemma apply_all_result:
  "apply_all_channel_updates now H cus = Inr H' \<Longrightarrow> distinct (map fst cus) \<Longrightarrow>
   (cid, cu) \<in> set cus \<Longrightarrow>
   \<exists>ch'. map_of (channels H') cid = Some ch' \<and>
     apply_channel_updates now cid cu
       (case map_of (channels H) cid of None \<Rightarrow> new_Channel now cid cid | Some c \<Rightarrow> c) = Inr ch'"
proof (induction cus arbitrary: H)
  case Nil
  then show ?case by simp
next
  case (Cons p cus)
  obtain c0 cu0 where p: "p = (c0, cu0)" by (cases p)
  let ?ch = "case map_of (channels H) c0 of None \<Rightarrow> new_Channel now c0 c0 | Some c \<Rightarrow> c"
  from Cons.prems(1) p obtain ch' where
    ch': "apply_channel_updates now c0 cu0 ?ch = Inr ch'" and
    rest: "apply_all_channel_updates now (H\<lparr>channels := AList.update c0 ch' (channels H)\<rparr>) cus = Inr H'"
    by (auto simp: Let_def split: sum.splits)
  show ?case
  proof (cases "c0 = cid")
    case True
    with Cons.prems p have cu: "cu0 = cu" and notin: "cid \<notin> fst ` set cus"
      by (auto simp: image_iff)
    from apply_all_untouched[OF rest notin]
    have m: "map_of (channels H') cid = Some ch'" using True by (simp add: update_conv')
    from True have eq: "cid = c0" by simp
    show ?thesis using ch' cu m unfolding eq by simp
  next
    case False
    have "(cid, cu) \<in> set cus" using Cons.prems(3) p False by auto
    from Cons.IH[OF rest _ this] Cons.prems(2) False
    show ?thesis by (simp add: update_conv')
  qed
qed

section \<open>Positional updates out of range\<close>







section \<open>Facts about one channel diff and one tool update\<close>

lemma last_activity_apply_truthy_metadata [simp]:
  "last_activity (apply_truthy_metadata cu ch) = last_activity ch"
  by (simp add: apply_truthy_metadata_def Let_def split: option.splits)

lemma messages_apply_truthy_metadata [simp]:
  "messages (apply_truthy_metadata cu ch) = messages ch"
  by (simp add: apply_truthy_metadata_def Let_def split: option.splits)

lemma channel_id_apply_truthy_metadata [simp]:
  "channel_id (apply_truthy_metadata cu ch) = channel_id ch"
  by (simp add: apply_truthy_metadata_def Let_def split: option.splits)

lemma channel_id_apply_metadata [simp]:
  "channel_id (apply_metadata cu ch) = channel_id ch"
  by (simp add: apply_metadata_def Let_def split: option.splits)

lemma last_activity_apply_additions:
  "new_messages cu \<noteq> [] \<Longrightarrow>
   last_activity (apply_additions cu ch) = py_max (map date (new_messages cu))"
  by (simp add: apply_additions_def Let_def)

lemma messages_apply_additions:
  "messages (apply_additions cu ch) =
   add_new_messages (append_left (messages ch) (message_append_left cu)) (new_messages cu)"
  by (simp add: apply_additions_def Let_def)

lemma channel_id_apply_additions [simp]:
  "channel_id (apply_additions cu ch) = channel_id ch"
  by (simp add: apply_additions_def Let_def)

lemma apply_channel_updates_last_activity:
  "apply_channel_updates now cid cu ch = Inr ch' \<Longrightarrow> new_messages cu \<noteq> [] \<Longrightarrow>
   last_activity ch' = py_max (map date (new_messages cu))"
  by (auto simp: apply_channel_updates_def Let_def last_activity_apply_additions
      split: sum.splits)

lemma apply_channel_updates_channel_id:
  "apply_channel_updates now cid cu ch = Inr ch' \<Longrightarrow> channel_id ch' = channel_id ch"
  by (auto simp: apply_channel_updates_def Let_def apply_delete_before_def
      split: sum.splits option.splits)

lemma apply_tool_update_result:
  assumes "apply_tool_update now pos H u = Inr H'"
  shows "H' = H \<or>
    (\<exists>cid ch i c d s act tcs itms itms' t.
       pos (tool_call_id u) = Some (cid, i) \<and> map_of (channels H) cid = Some ch \<and>
       i < length (messages ch) \<and> messages ch ! i = AIMessage' c d s act tcs itms \<and>
       tool_call_id u \<in> fst ` set itms \<and>
       map fst itms' = map fst itms \<and> date t \<ge> date (last (messages ch)) \<and>
       H' = H\<lparr>channels := AList.update cid
              (ch\<lparr>messages := (messages ch)[i := AIMessage' c d s act tcs itms']
                     @ (if Suc i < length (messages ch) then [t] else [])\<rparr>) (channels H)\<rparr>)"
proof (cases "pos (tool_call_id u)")
  case None
  then show ?thesis using assms by (simp add: apply_tool_update_def)
next
  case (Some loc)
  obtain cid i where loc: "loc = (cid, i)" by (cases loc)
  from assms Some loc obtain ch where ch: "map_of (channels H) cid = Some ch"
    by (auto simp: apply_tool_update_def split: option.splits)
  from assms Some loc ch have lt: "i < length (messages ch)"
    by (auto simp: apply_tool_update_def split: if_splits)
  from assms Some loc ch lt obtain c d s act tcs itms where
    m: "messages ch ! i = AIMessage' c d s act tcs itms"
    by (cases "messages ch ! i") (auto simp: apply_tool_update_def)
  from assms Some loc ch lt m obtain tm where tm: "map_of itms (tool_call_id u) = Some tm"
    by (auto simp: apply_tool_update_def split: option.splits)
  then have key: "tool_call_id u \<in> fst ` set itms"
    by (metis domI dom_map_of_conv_image_fst)
  define nc where "nc = (case InternalToolMessage.content u of None \<Rightarrow> None
                              | Some txt \<Rightarrow> if txt \<noteq> [] then Some txt else None)"
  define itms' where "itms' = AList.update (tool_call_id u) (set_status (internal_status u) nc tm) itms"
  define ms where "ms = (messages ch)[i := AIMessage' c d s act tcs itms']"
  define t0 where "t0 = toolupdated_message now (tool_call_id u)"
  define t where "t = (if ms \<noteq> [] \<and> date t0 < date (last ms) then set_date (date (last ms)) t0 else t0)"
  have keys: "map fst itms' = map fst itms"
    using key by (simp add: itms'_def update_keys)
  have H': "H' = H\<lparr>channels := AList.update cid
              (ch\<lparr>messages := ms @ (if Suc i < length (messages ch) then [t] else [])\<rparr>) (channels H)\<rparr>"
    using assms Some loc ch lt m tm
    by (auto simp: apply_tool_update_def Let_def nc_def itms'_def ms_def t0_def t_def)
  have ne: "ms \<noteq> []" using lt by (auto simp: ms_def)
  have dl: "date (last ms) = date (last (messages ch))"
  proof (cases "i = length (messages ch) - 1")
    case True
    then show ?thesis using lt m ne
      by (simp add: ms_def last_conv_nth)
  next
    case False
    then show ?thesis using lt ne by (simp add: ms_def last_conv_nth)
  qed
  have "date t \<ge> date (last (messages ch))"
    using ne dl by (cases t0) (auto simp: t_def)
  then show ?thesis
    using Some loc ch lt m key keys H' unfolding ms_def by blast
qed

lemma apply_tool_update_last_activity:
  assumes "apply_tool_update now pos H u = Inr H'"
  shows "map_option last_activity (map_of (channels H') k) =
         map_option last_activity (map_of (channels H) k)"
  using apply_tool_update_result[OF assms]
  by (auto simp: update_conv')

lemma apply_tool_updates_last_activity:
  "apply_tool_updates now pos H us = Inr H' \<Longrightarrow>
   map_option last_activity (map_of (channels H') k) =
   map_option last_activity (map_of (channels H) k)"
proof (induction us arbitrary: H)
  case Nil
  then show ?case by simp
next
  case (Cons u us)
  then obtain H1 where 1: "apply_tool_update now pos H u = Inr H1"
    and 2: "apply_tool_updates now pos H1 us = Inr H'"
    by (auto split: sum.splits)
  show ?case using Cons.IH[OF 2] apply_tool_update_last_activity[OF 1, of k] by simp
qed

lemma S2_result:
  "history_reducer 100 (Some S2_history) (Updates S2_updates) = Some (Inr S2_after)"
  by (simp add: history_reducer_def apply_internal_updates_def S2_history_def S2_updates_def
        default_updates_def default_channel_updates_def apply_channel_updates_def
        apply_metadata_def apply_message_deletes_def apply_additions_def add_new_messages_def
        apply_truthy_metadata_def py_max_def new_Channel_def msg_at_def S2_after_def
        S2_channel_after_def)

section \<open>The last activity of a channel\<close>

text \<open>
  Claim C1 as stated fails: the reducer sets \<open>last_activity\<close> to the greatest date among
  the new messages of the diff, not among all messages of the channel. In scenario S2 the
  messages become 10, 20, 30 and \<open>last_activity\<close> becomes 20, while the greatest date of
  the channel is 30.
\<close>

theorem S2_last_activity_counterexample:
  "history_reducer 100 (Some S2_history) (Updates S2_updates) = Some (Inr S2_after) \<and>
   channels S2_after = [(''c1'', S2_channel_after)] \<and>
   map date (messages S2_channel_after) = [10, 20, 30] \<and>
   last_activity S2_channel_after = 20 \<and>
   py_max (map date (messages S2_channel_after)) = 30"
  by (simp add: S2_result)
     (simp add: S2_after_def S2_channel_after_def msg_at_def py_max_def)

text \<open>
  Claim C1 as amended: after the reducer has applied an \<open>InternalUpdates\<close>, every channel
  whose diff carries new messages has \<open>last_activity\<close> equal to the greatest date among
  these new messages.
\<close>

theorem last_activity_is_max_of_new_messages:
  assumes "history_reducer now left (Updates U) = Some (Inr H')"
    and "distinct (map fst (channel_updates U))"
    and "(cid, cu) \<in> set (channel_updates U)"
    and "new_messages cu \<noteq> []"
  shows "\<exists>c. map_of (channels H') cid = Some c \<and>
             last_activity c = Max (date ` set (new_messages cu))"
proof -
  define H where "H = (case left of None \<Rightarrow> empty_History | Some h \<Rightarrow> h)"
  from assms(1) obtain H1 where
    H1: "apply_all_channel_updates now H (channel_updates U) = Inr H1"
    by (auto simp: history_reducer_def apply_internal_updates_def H_def Let_def
        split: sum.splits)
  define H2 where "H2 = (case InternalUpdates.current_channel U of None \<Rightarrow> H1
                          | Some c \<Rightarrow> H1\<lparr>History.current_channel := Some c\<rparr>)"
  have ch2: "channels H2 = channels H1"
    by (simp add: H2_def split: option.splits)
  from apply_all_result[OF H1 assms(2,3)] obtain ch' where
    ch': "map_of (channels H1) cid = Some ch'" and
    app: "apply_channel_updates now cid cu
       (case map_of (channels H) cid of None \<Rightarrow> new_Channel now cid cid | Some c \<Rightarrow> c) = Inr ch'"
    by blast
  have la: "last_activity ch' = Max (date ` set (new_messages cu))"
    using apply_channel_updates_last_activity[OF app assms(4)] assms(4)
    by (simp add: py_max_Max)
  have "map_option last_activity (map_of (channels H') cid) =
        map_option last_activity (map_of (channels H2) cid)"
  proof (cases "tool_updates U = []")
    case True
    then show ?thesis using assms(1) H1
      by (simp add: history_reducer_def apply_internal_updates_def H_def[symmetric] H2_def Let_def)
  next
    case False
    then obtain pos where "apply_tool_updates now pos H2 (tool_updates U) = Inr H'"
      using assms(1) H1
      by (auto simp: history_reducer_def apply_internal_updates_def H_def[symmetric]
            H2_def Let_def split: option.splits)
    then show ?thesis by (rule apply_tool_updates_last_activity)
  qed
  then show ?thesis using ch' la ch2 by auto
qed

theorem last_activity_is_max_of_new_messages_witness:
  "history_reducer 100 (Some S2_history) (Updates S2_updates) = Some (Inr S2_after) \<and>
   distinct (map fst (channel_updates S2_updates)) \<and>
   (\<exists>c. map_of (channels S2_after) ''c1'' = Some c \<and> last_activity c = 20)"
proof -
  let ?cu = "default_channel_updates\<lparr>new_messages := [msg_at 20]\<rparr>"
  have d: "distinct (map fst (channel_updates S2_updates))"
    by (simp add: S2_updates_def default_updates_def)
  have m: "(''c1'', ?cu) \<in> set (channel_updates S2_updates)"
    by (simp add: S2_updates_def default_updates_def)
  have n: "new_messages ?cu \<noteq> []" by simp
  from last_activity_is_max_of_new_messages[OF S2_result d m n]
  have "\<exists>c. map_of (channels S2_after) ''c1'' = Some c \<and> last_activity c = 20"
    by (simp add: msg_at_def)
  with S2_result d show ?thesis by blast
qed

section \<open>Draining the responses of a thread\<close>

lemma add_processing_append:
  "add_processing clock k reqs acc = acc @ add_processing clock k reqs []"
proof (induction reqs arbitrary: k acc)
  case Nil
  then show ?case by simp
next
  case (Cons r reqs)
  show ?case
    using Cons.IH[of "Suc k" "acc @ [processing_response (clock k) r]"]
      Cons.IH[of "Suc k" "[processing_response (clock k) r]"]
    by simp
qed

lemma length_add_processing [simp]:
  "length (add_processing clock k reqs acc) = length acc + length reqs"
  by (induction reqs arbitrary: k acc) simp_all

lemma add_processing_ids:
  "map (\<lambda>r. tm_tool_call_id (tool_message r)) (add_processing clock k reqs []) =
   map (\<lambda>q. call_id (tool_call q)) reqs"
proof (induction reqs arbitrary: k)
  case Nil
  then show ?case by simp
next
  case (Cons r reqs)
  show ?case
    using Cons.IH[of "Suc k"]
      add_processing_append[of clock "Suc k" reqs "[processing_response (clock k) r]"]
    by (simp add: processing_response_def)
qed

lemma add_processing_status:
  "map mcp_status (add_processing clock k reqs []) = replicate (length reqs) processing"
proof (induction reqs arbitrary: k)
  case Nil
  then show ?case by simp
next
  case (Cons r reqs)
  show ?case
    using Cons.IH[of "Suc k"]
      add_processing_append[of clock "Suc k" reqs "[processing_response (clock k) r]"]
    by (simp add: processing_response_def)
qed

lemma add_processing_tool_status:
  "map (\<lambda>r. tm_status (tool_message r)) (add_processing clock k reqs []) =
   replicate (length reqs) success"
proof (induction reqs arbitrary: k)
  case Nil
  then show ?case by simp
next
  case (Cons r reqs)
  show ?case
    using Cons.IH[of "Suc k"]
      add_processing_append[of clock "Suc k" reqs "[processing_response (clock k) r]"]
    by (simp add: processing_response_def)
qed

text \<open>
  Claim C8. \<open>current_responses\<close> returns the terminal responses of the thread followed by
  one response of status \<open>processing\<close> for each pending request, in their order and with
  their tool call ids; it leaves the thread without terminal responses and with the same
  pending requests, so that a second call at once returns the synthesized responses only.
\<close>

theorem current_responses_drains:
  "fst (current_responses clock thread) =
     terminal_responses thread @ add_processing clock 0 (pending_requests thread) [] \<and>
   map (\<lambda>r. tm_tool_call_id (tool_message r))
       (add_processing clock 0 (pending_requests thread) []) =
     map (\<lambda>q. call_id (tool_call q)) (pending_requests thread) \<and>
   map mcp_status (add_processing clock 0 (pending_requests thread) []) =
     replicate (length (pending_requests thread)) processing \<and>
   terminal_responses (snd (current_responses clock thread)) = [] \<and>
   pending_requests (snd (current_responses clock thread)) = pending_requests thread \<and>
   fst (current_responses clock' (snd (current_responses clock thread))) =
     add_processing clock' 0 (pending_requests thread) []"
  using add_processing_append[of clock 0 "pending_requests thread" "terminal_responses thread"]
  by (simp add: current_responses_def Let_def add_processing_ids add_processing_status)

text \<open>
  Claim C10. Every response that \<open>current_responses\<close> synthesizes for a pending request
  (the responses after the terminal ones) has the tool message status \<open>success\<close>, and its
  own status is \<open>processing\<close>.
\<close>

theorem processing_responses_report_success:
  "map (\<lambda>r. tm_status (tool_message r))
       (drop (length (terminal_responses thread)) (fst (current_responses clock thread))) =
     replicate (length (pending_requests thread)) success \<and>
   map mcp_status
       (drop (length (terminal_responses thread)) (fst (current_responses clock thread))) =
     replicate (length (pending_requests thread)) processing"
  using add_processing_append[of clock 0 "pending_requests thread" "terminal_responses thread"]
  by (simp add: current_responses_def Let_def add_processing_tool_status add_processing_status)

section \<open>Messages stay sorted by date\<close>

lemma date_set_date [simp]: "date (set_date d m) = d"
  by (cases m) simp_all

lemma apply_message_updates_dates:
  "apply_message_updates cid msgs ups = Inr msgs' \<Longrightarrow> map date msgs' = map date msgs"
proof (induction cid msgs ups rule: apply_message_updates.induct)
  case (1 cid msgs)
  then show ?case by simp
next
  case (2 cid msgs mid message_update rest)
  from "2.prems" obtain k where k: "py_index msgs mid = Some k" and lt: "mid < int (length msgs)"
    and rest: "apply_message_updates cid
               (msgs[k := set_date (date (msgs ! k)) message_update]) rest = Inr msgs'"
    by (auto split: if_splits option.splits)
  have "k < length msgs" using k by (auto simp: py_index_def Let_def split: if_splits)
  then have "map date (msgs[k := set_date (date (msgs ! k)) message_update]) = map date msgs"
    by (simp add: map_update list_update_same_conv)
  with "2.IH"[OF lt k rest] show ?case by simp
qed

lemma sorted_remove_nth:
  fixes ys :: "'a::linorder list"
  assumes "sorted ys"
  shows "sorted (take k ys @ drop (Suc k) ys)"
proof -
  have "sorted (take k ys @ drop k ys)" using assms by simp
  then have a: "\<forall>x\<in>set (take k ys). \<forall>y\<in>set (drop k ys). x \<le> y"
    by (simp only: sorted_append) blast
  have "set (drop (Suc k) ys) \<subseteq> set (drop k ys)"
    by (rule set_drop_subset_set_drop) simp
  with a have "\<forall>x\<in>set (take k ys). \<forall>y\<in>set (drop (Suc k) ys). x \<le> y" by blast
  moreover have "sorted (take k ys)" "sorted (drop (Suc k) ys)"
    using assms by simp_all
  ultimately show ?thesis by (simp add: sorted_append)
qed

lemma delete_indices_sorted:
  "delete_indices msgs ds = Inr msgs' \<Longrightarrow> sorted (map date msgs) \<Longrightarrow> sorted (map date msgs')"
proof (induction msgs ds rule: delete_indices.induct)
  case (1 msgs)
  then show ?case by simp
next
  case (2 msgs message_index rest)
  show ?case
  proof (cases "message_index < int (length msgs)")
    case True
    with "2.prems" obtain k where k: "py_index msgs message_index = Some k"
      and rest: "delete_indices (take k msgs @ drop (Suc k) msgs) rest = Inr msgs'"
      by (auto split: option.splits)
    have "sorted (map date (take k msgs @ drop (Suc k) msgs))"
      using sorted_remove_nth[OF "2.prems"(2), of k] by (simp add: take_map drop_map)
    from "2.IH"(1)[OF True k rest this] show ?thesis .
  next
    case False
    with "2.prems" "2.IH"(2) show ?thesis by simp
  qed
qed

lemma append_left_sorted:
  "sorted (map date msgs) \<Longrightarrow> sorted (map date (append_left msgs news))"
proof (induction news arbitrary: msgs)
  case Nil
  then show ?case by simp
next
  case (Cons m news)
  let ?m = "if msgs \<noteq> [] \<and> date m > date (hd msgs) then set_date (date (hd msgs)) m else m"
  have "sorted (map date (?m # msgs))"
  proof (cases msgs)
    case Nil
    then show ?thesis by simp
  next
    case (Cons a as)
    with Cons.prems show ?thesis by auto
  qed
  from Cons.IH[OF this] show ?case by simp
qed

lemma append_new_flag:
  "append_new msgs True news = (msgs', f) \<Longrightarrow> f"
  by (induction news arbitrary: msgs) auto

lemma append_new_sorted:
  "append_new msgs ns news = (msgs', False) \<Longrightarrow> sorted (map date msgs) \<Longrightarrow>
   sorted (map date msgs')"
proof (induction news arbitrary: msgs ns)
  case Nil
  then show ?case by simp
next
  case (Cons m news)
  define fl where "fl = (if length msgs \<ge> 1 \<and> date m < date (last msgs) then True else ns)"
  from Cons.prems(1) have run: "append_new (msgs @ [m]) fl news = (msgs', False)"
    by (simp add: fl_def)
  have nfl: "\<not> fl"
  proof
    assume "fl"
    then have "fl = True" by simp
    with run have "append_new (msgs @ [m]) True news = (msgs', False)" by simp
    from append_new_flag[OF this] show False .
  qed
  then have nf: "\<not> (length msgs \<ge> 1 \<and> date m < date (last msgs))"
    by (auto simp: fl_def split: if_splits)
  have "sorted (map date (msgs @ [m]))"
  proof (cases "msgs = []")
    case True
    then show ?thesis by simp
  next
    case False
    then have le: "date (last msgs) \<le> date m" using nf by (auto simp: Suc_le_eq)
    have eq: "msgs = butlast msgs @ [last msgs]" using False by simp
    have "sorted (map date (butlast msgs @ [last msgs]))"
      using Cons.prems(2) False by simp
    then have sb: "sorted (map date (butlast msgs) @ [date (last msgs)])" by simp
    have "set (map date msgs) = set (map date (butlast msgs)) \<union> {date (last msgs)}"
      by (subst eq) simp
    with sb have "\<forall>x\<in>set (map date msgs). x \<le> date (last msgs)"
      by (auto simp: sorted_append)
    with le Cons.prems(2) show ?thesis by (auto simp: sorted_append)
  qed
  from Cons.IH[OF run this] show ?case .
qed

lemma add_new_messages_sorted:
  "sorted (map date msgs) \<Longrightarrow> sorted (map date (add_new_messages msgs news))"
proof -
  assume s: "sorted (map date msgs)"
  obtain msgs' f where r: "append_new msgs False news = (msgs', f)"
    by (cases "append_new msgs False news")
  show ?thesis
  proof (cases f)
    case True
    then show ?thesis using r by (simp add: add_new_messages_def)
  next
    case False
    then show ?thesis using r append_new_sorted[OF _ s, of False news msgs']
      by (simp add: add_new_messages_def)
  qed
qed

lemma apply_channel_updates_sorted:
  assumes "apply_channel_updates now cid cu ch = Inr ch'" and "sorted_channel ch"
  shows "sorted_channel ch'"
proof -
  from assms(1) obtain msgs2 msgs3 where
    2: "apply_message_updates cid (messages ch) (message_updates cu) = Inr msgs2" and
    3: "delete_indices msgs2 (rev (sort (message_deletes cu))) = Inr msgs3" and
    r: "ch' = apply_additions cu
          (case delete_before cu of None \<Rightarrow> (apply_metadata cu ch)\<lparr>messages := msgs3\<rparr>
           | Some cutoff \<Rightarrow> apply_delete_before now cutoff ((apply_metadata cu ch)\<lparr>messages := msgs3\<rparr>))"
    by (auto simp: apply_channel_updates_def Let_def apply_message_deletes_def split: sum.splits)
  have s2: "sorted (map date msgs2)"
    using apply_message_updates_dates[OF 2] assms(2) by (simp add: sorted_channel_def)
  have s3: "sorted (map date msgs3)" by (rule delete_indices_sorted[OF 3 s2])
  let ?c = "case delete_before cu of None \<Rightarrow> (apply_metadata cu ch)\<lparr>messages := msgs3\<rparr>
           | Some cutoff \<Rightarrow> apply_delete_before now cutoff ((apply_metadata cu ch)\<lparr>messages := msgs3\<rparr>)"
  have "sorted (map date (messages ?c))"
    using s3 by (auto simp: apply_delete_before_def Let_def sorted_filter split: option.splits)
  then show ?thesis
    unfolding r sorted_channel_def messages_apply_additions
    by (intro add_new_messages_sorted append_left_sorted)
qed

lemma sorted_new_Channel [simp]: "sorted_channel (new_Channel now i n)"
  by (simp add: sorted_channel_def new_Channel_def)

lemma sorted_history_update:
  "sorted_history H \<Longrightarrow> sorted_channel c \<Longrightarrow>
   sorted_history (H\<lparr>channels := AList.update k c (channels H)\<rparr>)"
  using set_update_subset[of k c "channels H"]
  by (auto simp: sorted_history_def)

lemma sorted_history_lookup:
  "sorted_history H \<Longrightarrow> map_of (channels H) k = Some c \<Longrightarrow> sorted_channel c"
  by (auto simp: sorted_history_def dest: map_of_SomeD)

lemma apply_all_sorted:
  "apply_all_channel_updates now H cus = Inr H' \<Longrightarrow> sorted_history H \<Longrightarrow> sorted_history H'"
proof (induction cus arbitrary: H)
  case Nil
  then show ?case by simp
next
  case (Cons p cus)
  obtain c0 cu0 where p: "p = (c0, cu0)" by (cases p)
  let ?ch = "case map_of (channels H) c0 of None \<Rightarrow> new_Channel now c0 c0 | Some c \<Rightarrow> c"
  from Cons.prems(1) p obtain ch' where
    ch': "apply_channel_updates now c0 cu0 ?ch = Inr ch'" and
    rest: "apply_all_channel_updates now (H\<lparr>channels := AList.update c0 ch' (channels H)\<rparr>) cus = Inr H'"
    by (auto simp: Let_def split: sum.splits)
  have "sorted_channel ?ch"
    using Cons.prems(2) by (auto split: option.splits intro: sorted_history_lookup)
  then have "sorted_channel ch'" by (rule apply_channel_updates_sorted[OF ch'])
  from Cons.IH[OF rest sorted_history_update[OF Cons.prems(2) this]] show ?case .
qed

lemma apply_tool_update_sorted:
  assumes "apply_tool_update now pos H u = Inr H'" and "sorted_history H"
  shows "sorted_history H'"
proof -
  from apply_tool_update_result[OF assms(1)] show ?thesis
  proof
    assume "H' = H" then show ?thesis using assms(2) by simp
  next
    assume "\<exists>cid ch i c d s act tcs itms itms' t.
       pos (tool_call_id u) = Some (cid, i) \<and> map_of (channels H) cid = Some ch \<and>
       i < length (messages ch) \<and> messages ch ! i = AIMessage' c d s act tcs itms \<and>
       tool_call_id u \<in> fst ` set itms \<and>
       map fst itms' = map fst itms \<and> date t \<ge> date (last (messages ch)) \<and>
       H' = H\<lparr>channels := AList.update cid
              (ch\<lparr>messages := (messages ch)[i := AIMessage' c d s act tcs itms']
                     @ (if Suc i < length (messages ch) then [t] else [])\<rparr>) (channels H)\<rparr>"
    then obtain cid ch i c d s act tcs itms itms' t where
      ch: "map_of (channels H) cid = Some ch" and lt: "i < length (messages ch)" and
      m: "messages ch ! i = AIMessage' c d s act tcs itms" and
      t: "date t \<ge> date (last (messages ch))" and
      H': "H' = H\<lparr>channels := AList.update cid
              (ch\<lparr>messages := (messages ch)[i := AIMessage' c d s act tcs itms']
                     @ (if Suc i < length (messages ch) then [t] else [])\<rparr>) (channels H)\<rparr>"
      by blast
    let ?ms = "(messages ch)[i := AIMessage' c d s act tcs itms']"
    have sc: "sorted (map date (messages ch))"
      using sorted_history_lookup[OF assms(2) ch] by (simp add: sorted_channel_def)
    have dm: "map date ?ms = map date (messages ch)"
      using lt m by (simp add: map_update list_update_same_conv)
    have ne: "messages ch \<noteq> []" using lt by auto
    have "\<forall>x\<in>set (map date (messages ch)). x \<le> date (last (messages ch))"
    proof -
      have eq: "messages ch = butlast (messages ch) @ [last (messages ch)]" using ne by simp
      have "sorted (map date (butlast (messages ch) @ [last (messages ch)]))"
        using sc ne by simp
      then have sb: "sorted (map date (butlast (messages ch)) @ [date (last (messages ch))])"
        by simp
      have "set (map date (messages ch)) =
            set (map date (butlast (messages ch))) \<union> {date (last (messages ch))}"
        by (subst eq) simp
      with sb show ?thesis by (auto simp: sorted_append)
    qed
    then have "sorted (map date (?ms @ (if Suc i < length (messages ch) then [t] else [])))"
      using sc dm t by (auto simp: sorted_append)
    then have "sorted_channel (ch\<lparr>messages := ?ms @ (if Suc i < length (messages ch) then [t] else [])\<rparr>)"
      by (simp add: sorted_channel_def)
    from sorted_history_update[OF assms(2) this] show ?thesis unfolding H' .
  qed
qed

lemma apply_tool_updates_sorted:
  "apply_tool_updates now pos H us = Inr H' \<Longrightarrow> sorted_history H \<Longrightarrow> sorted_history H'"
proof (induction us arbitrary: H)
  case Nil
  then show ?case by simp
next
  case (Cons u us)
  then obtain H1 where 1: "apply_tool_update now pos H u = Inr H1"
    and 2: "apply_tool_updates now pos H1 us = Inr H'"
    by (auto split: sum.splits)
  from Cons.IH[OF 2 apply_tool_update_sorted[OF 1 Cons.prems(2)]] show ?case .
qed

lemma sorted_empty_History [simp]: "sorted_history empty_History"
  by (simp add: sorted_history_def empty_History_def)

text \<open>
  Claim C4. The ordering invariant is kept by every application of the reducer: when the
  messages of every channel of the history (and of a history passed as the new value) are
  sorted by date, so are the messages of every channel of the result, whatever the diff
  holds (new messages, left-appended messages, positional updates, deletes, the cutoff
  \<open>delete_before\<close> and tool updates with their \<open>#toolupdated#\<close> messages).
\<close>

theorem reducer_keeps_messages_sorted:
  assumes "history_reducer now left right = Some (Inr H')"
    and "case left of None \<Rightarrow> True | Some h \<Rightarrow> sorted_history h"
    and "case right of Replace r \<Rightarrow> sorted_history r | Reset \<Rightarrow> True | Updates u \<Rightarrow> True"
  shows "sorted_history H'"
proof -
  define H where "H = (case left of None \<Rightarrow> empty_History | Some h \<Rightarrow> h)"
  have sH: "sorted_history H" using assms(2) by (auto simp: H_def split: option.splits)
  show ?thesis
  proof (cases right)
    case Reset
    then show ?thesis using assms(1) by (auto simp: history_reducer_def)
  next
    case (Replace r)
    then show ?thesis using assms(1,3) sH
      by (auto simp: history_reducer_def H_def[symmetric] Let_def split: if_splits)
  next
    case (Updates U)
    from assms(1) Updates obtain H1 where
      H1: "apply_all_channel_updates now H (channel_updates U) = Inr H1"
      by (auto simp: history_reducer_def apply_internal_updates_def H_def Let_def
          split: sum.splits)
    define H2 where "H2 = (case InternalUpdates.current_channel U of None \<Rightarrow> H1
                          | Some c \<Rightarrow> H1\<lparr>History.current_channel := Some c\<rparr>)"
    have "sorted_history H1" by (rule apply_all_sorted[OF H1 sH])
    then have s2: "sorted_history H2"
      by (simp add: H2_def sorted_history_def split: option.splits)
    show ?thesis
    proof (cases "tool_updates U = []")
      case True
      then show ?thesis using assms(1) H1 Updates s2
        by (simp add: history_reducer_def apply_internal_updates_def H_def[symmetric] H2_def Let_def)
    next
      case False
      then obtain pos where "apply_tool_updates now pos H2 (tool_updates U) = Inr H'"
        using assms(1) H1 Updates
        by (auto simp: history_reducer_def apply_internal_updates_def H_def[symmetric]
              H2_def Let_def split: option.splits)
      then show ?thesis using s2 by (rule apply_tool_updates_sorted)
    qed
  qed
qed

theorem reducer_keeps_messages_sorted_witness:
  "history_reducer 100 (Some S2_history) (Updates S2_updates) = Some (Inr S2_after) \<and>
   sorted_history S2_history \<and> sorted_history S2_after"
proof -
  have s: "sorted_history S2_history"
    by (simp add: sorted_history_def sorted_channel_def S2_history_def new_Channel_def msg_at_def)
  from reducer_keeps_messages_sorted[OF S2_result] s
  have "sorted_history S2_after" by simp
  with S2_result s show ?thesis by blast
qed

section \<open>The search for tool calls returns, with locations that exist\<close>

lemma scan_keys_valid:
  assumes "map_of chans cid = Some ch" "i < length (messages ch)"
    "is_AIMessage (messages ch ! i)" "set tids \<subseteq> set (map fst (internal_tool_messages (messages ch ! i)))"
    "valid_locations chans (snd st)"
  shows "valid_locations chans (snd (scan_keys cid i tids st))"
  using assms
proof (induction cid i tids st rule: scan_keys.induct)
  case (1 cid index st)
  then show ?case by simp
next
  case (2 cid index tid tids id_queue results)
  have v: "valid_locations chans (results(tid \<mapsto> (cid, index)))"
    using "2.prems" by (auto simp: valid_locations_def hosts_def)
  have sub: "set tids \<subseteq> set (map fst (internal_tool_messages (messages ch ! index)))"
    using "2.prems"(4) by simp
  have "valid_locations chans
          (snd (if tid \<in> set id_queue
                then (remove1 tid id_queue, results(tid \<mapsto> (cid, index)))
                else (id_queue, results)))"
    using v "2.prems"(5) by (simp split: if_split)
  from "2.IH"[OF "2.prems"(1,2,3) sub this]
  show ?case by (simp only: scan_keys.simps)
qed

lemma scan_messages_valid:
  assumes "map_of chans cid = Some ch" "messages ch = pre @ msgs" "index = length pre"
    "valid_locations chans (snd st)"
  shows "valid_locations chans (snd (scan_messages cid index msgs st))"
  using assms
proof (induction msgs arbitrary: pre index st)
  case Nil
  then show ?case by simp
next
  case (Cons m msgs)
  have nth: "messages ch ! index = m" and lt: "index < length (messages ch)"
    using Cons.prems by (simp_all add: nth_append)
  let ?st = "case m of
          AIMessage' c d s act tcs itms \<Rightarrow>
            if tcs \<noteq> [] then scan_keys cid index (map fst itms) st else st
        | HumanMessage' c d s a i \<Rightarrow> st
        | SystemMessage' c d s a l \<Rightarrow> st"
  have V: "valid_locations chans (snd ?st)"
  proof (cases m)
    case (AIMessage' c d s act tcs itms)
    then show ?thesis
      using scan_keys_valid[OF Cons.prems(1) lt, where tids = "map fst itms" and st = st]
        nth Cons.prems(4)
      by simp
  qed (use Cons.prems in auto)
  have A: "messages ch = (pre @ [m]) @ msgs" and B: "Suc index = length (pre @ [m])"
    using Cons.prems by simp_all
  have "valid_locations chans (snd (scan_messages cid (Suc index) msgs ?st))"
    by (rule Cons.IH[OF Cons.prems(1) A B V])
  then show ?case by (simp only: scan_messages.simps)
qed

lemma next_channel_from:
  "next_channel checked chans cur = Some c \<Longrightarrow>
   cur = Some c \<or> (\<exists>k. (k, c) \<in> set chans \<and> k \<notin> set checked)"
  by (induction checked chans cur rule: next_channel.induct)
     (auto split: if_splits option.splits)

lemma locate_loop_valid_aux:
  assumes "locate_loop chans current checked q results = Some r"
  shows "distinct (map fst chans) \<and> (\<forall>(k, c) \<in> set chans. channel_id c = k) \<and>
     valid_locations chans results \<and>
     (messages current = [] \<or> map_of chans (channel_id current) = Some current) \<longrightarrow>
     valid_locations chans r"
proof (rule locate_loop.raw_induct
    [where P = "\<lambda>chans current checked q results r.
       distinct (map fst chans) \<and> (\<forall>(k, c) \<in> set chans. channel_id c = k) \<and>
       valid_locations chans results \<and>
       (messages current = [] \<or> map_of chans (channel_id current) = Some current) \<longrightarrow>
       valid_locations chans r", OF _ assms])
  fix loop :: "(string \<times> Channel) list \<Rightarrow> Channel \<Rightarrow> string list \<Rightarrow> string list \<Rightarrow> locations
      \<Rightarrow> locations option"
    and chans :: "(string \<times> Channel) list" and current :: Channel
    and checked q :: "string list" and results r :: locations
  assume IH: "\<And>chans current checked q results r.
      loop chans current checked q results = Some r \<Longrightarrow>
      distinct (map fst chans) \<and> (\<forall>(k, c) \<in> set chans. channel_id c = k) \<and>
       valid_locations chans results \<and>
       (messages current = [] \<or> map_of chans (channel_id current) = Some current) \<longrightarrow>
       valid_locations chans r"
    and hyps: "(case scan_messages (channel_id current) 0 (messages current) (q, results) of
        (id_queue', results') \<Rightarrow>
          if id_queue' \<noteq> [] then
            (case next_channel (checked @ [channel_id current]) chans None of
               None \<Rightarrow> Some results'
             | Some c \<Rightarrow>
                 loop chans c (checked @ [channel_id current]) id_queue' results')
          else Some results') = Some r"
  show "distinct (map fst chans) \<and> (\<forall>(k, c) \<in> set chans. channel_id c = k) \<and>
       valid_locations chans results \<and>
       (messages current = [] \<or> map_of chans (channel_id current) = Some current) \<longrightarrow>
       valid_locations chans r"
  proof (intro impI, elim conjE)
    assume d: "distinct (map fst chans)" and ids: "\<forall>(k, c) \<in> set chans. channel_id c = k"
      and v: "valid_locations chans results"
      and cur: "messages current = [] \<or> map_of chans (channel_id current) = Some current"
    obtain q' results' where sc:
      "scan_messages (channel_id current) 0 (messages current) (q, results) = (q', results')"
      by (cases "scan_messages (channel_id current) 0 (messages current) (q, results)")
    have v': "valid_locations chans results'"
    proof (cases "messages current = []")
      case True
      then show ?thesis using sc v by simp
    next
      case False
      then have m: "map_of chans (channel_id current) = Some current" using cur by simp
      from scan_messages_valid[OF m, of "[]" "messages current" 0 "(q, results)"] v sc
      show ?thesis by simp
    qed
    from hyps sc have body:
      "(if q' \<noteq> [] then
          (case next_channel (checked @ [channel_id current]) chans None of
             None \<Rightarrow> Some results'
           | Some c \<Rightarrow> loop chans c (checked @ [channel_id current]) q' results')
        else Some results') = Some r"
      by (simp only: prod.case)
    show "valid_locations chans r"
    proof (cases "q' = []")
      case True
      then have "r = results'" using body by simp
      then show ?thesis using v' by simp
    next
      case False
      show ?thesis
      proof (cases "next_channel (checked @ [channel_id current]) chans None")
        case None
        then have "r = results'" using body False by simp
        then show ?thesis using v' by simp
      next
        case (Some c)
        from next_channel_from[OF Some] obtain k where k: "(k, c) \<in> set chans" by auto
        then have "channel_id c = k" "map_of chans k = Some c"
          using d ids by auto
        then have cond: "messages c = [] \<or> map_of chans (channel_id c) = Some c" by simp
        have run: "loop chans c (checked @ [channel_id current]) q' results' = Some r"
          using body False Some by simp
        have "distinct (map fst chans) \<and> (\<forall>(k, c) \<in> set chans. channel_id c = k) \<and>
            valid_locations chans results' \<and>
            (messages c = [] \<or> map_of chans (channel_id c) = Some c)"
          using d ids v' cond by (intro conjI)
        with IH[OF run] show ?thesis by (rule mp)
      qed
    qed
  qed
qed

lemma locate_loop_terminates:
  assumes "distinct (map fst chans)" and "\<forall>(k, c) \<in> set chans. channel_id c = k"
  shows "\<exists>r. locate_loop chans current checked q results = Some r"
proof (induction "card (fst ` set chans - set (checked @ [channel_id current]))"
    arbitrary: current checked q results rule: less_induct)
  case less
  obtain q' results' where sc:
    "scan_messages (channel_id current) 0 (messages current) (q, results) = (q', results')"
    by (cases "scan_messages (channel_id current) 0 (messages current) (q, results)")
  have unfold: "locate_loop chans current checked q results =
      (if q' \<noteq> [] then
          (case next_channel (checked @ [channel_id current]) chans None of
             None \<Rightarrow> Some results'
           | Some c \<Rightarrow> locate_loop chans c (checked @ [channel_id current]) q' results')
        else Some results')"
    by (subst locate_loop.simps) (simp only: sc prod.case)
  show ?case
  proof (cases "q' = []")
    case True
    then show ?thesis by (simp add: unfold)
  next
    case False
    show ?thesis
    proof (cases "next_channel (checked @ [channel_id current]) chans None")
      case None
      then show ?thesis using False by (simp add: unfold)
    next
      case (Some c)
      from next_channel_from[OF Some] obtain k where
        k: "(k, c) \<in> set chans" "k \<notin> set (checked @ [channel_id current])" by auto
      then have ck: "channel_id c = k" using assms(2) by auto
      let ?K = "fst ` set chans"
      have "k \<in> ?K - set (checked @ [channel_id current])"
        using k by (force simp: image_iff)
      moreover have "k \<notin> ?K - set ((checked @ [channel_id current]) @ [channel_id c])"
        using ck by simp
      moreover have "?K - set ((checked @ [channel_id current]) @ [channel_id c])
            \<subseteq> ?K - set (checked @ [channel_id current])"
        by auto
      ultimately have "?K - set ((checked @ [channel_id current]) @ [channel_id c])
            \<subset> ?K - set (checked @ [channel_id current])"
        by blast
      then have "card (?K - set ((checked @ [channel_id current]) @ [channel_id c]))
            < card (?K - set (checked @ [channel_id current]))"
        by (intro psubset_card_mono) auto
      from less[OF this] obtain r where
        "locate_loop chans c (checked @ [channel_id current]) q' results' = Some r" by blast
      then show ?thesis using False Some by (simp add: unfold)
    qed
  qed
qed

lemma wf_history_lookup:
  "wf_history H \<Longrightarrow> map_of (channels H) k = Some c \<Longrightarrow> channel_id c = k"
  by (auto simp: wf_history_def dest: map_of_SomeD)

lemma get_current_channel_known:
  assumes "wf_history H"
  shows "messages (get_current_channel now H) = [] \<or>
     map_of (channels H) (channel_id (get_current_channel now H)) = Some (get_current_channel now H)"
proof (cases "History.current_channel H")
  case None
  then show ?thesis by (simp add: get_current_channel_def new_Channel_def)
next
  case (Some c)
  show ?thesis
  proof (cases "map_of (channels H) c")
    case None
    then show ?thesis using Some by (simp add: get_current_channel_def new_Channel_def)
  next
    case (Some ch)
    with wf_history_lookup[OF assms Some] \<open>History.current_channel H = Some c\<close>
    show ?thesis by (simp add: get_current_channel_def)
  qed
qed

lemma locate_tool_calls_terminates:
  "wf_history H \<Longrightarrow> \<exists>pos. locate_tool_calls now H ids = Some pos"
  unfolding locate_tool_calls_def wf_history_def
  by (intro locate_loop_terminates) auto

lemma locate_tool_calls_valid:
  assumes "wf_history H" and "locate_tool_calls now H ids = Some pos"
  shows "valid_locations (channels H) pos"
proof -
  have "valid_locations (channels H) Map.empty" by (simp add: valid_locations_def)
  with locate_loop_valid_aux[OF assms(2)[unfolded locate_tool_calls_def]]
    get_current_channel_known[OF assms(1), of now] assms(1)
  show ?thesis by (simp add: wf_history_def)
qed

section \<open>Tool updates never raise on locations that exist\<close>

lemma valid_locations_present:
  "valid_locations (channels H) pos \<Longrightarrow> pos tid = Some loc \<Longrightarrow> present H tid"
proof -
  assume v: "valid_locations (channels H) pos" and p: "pos tid = Some loc"
  obtain cid i where loc: "loc = (cid, i)" by (cases loc)
  from v p loc obtain ch where ch: "map_of (channels H) cid = Some ch"
    and lt: "i < length (messages ch)" and h: "hosts (messages ch ! i) tid"
    unfolding valid_locations_def by blast
  from ch have "(cid, ch) \<in> set (channels H)" by (rule map_of_SomeD)
  moreover from lt have "messages ch ! i \<in> set (messages ch)" by simp
  ultimately show ?thesis using h unfolding present_def by blast
qed

lemma apply_tool_update_total:
  assumes "valid_locations (channels H) pos"
  shows "\<exists>H'. apply_tool_update now pos H u = Inr H'"
proof (cases "pos (tool_call_id u)")
  case None
  then show ?thesis by (simp add: apply_tool_update_def)
next
  case (Some loc)
  obtain cid i where loc: "loc = (cid, i)" by (cases loc)
  from assms Some loc obtain ch where ch: "map_of (channels H) cid = Some ch"
    and lt: "i < length (messages ch)" and h: "hosts (messages ch ! i) (tool_call_id u)"
    unfolding valid_locations_def by blast
  from h obtain c d s act tcs itms where m: "messages ch ! i = AIMessage' c d s act tcs itms"
    by (cases "messages ch ! i") (auto simp: hosts_def)
  with h have "tool_call_id u \<in> fst ` set itms" by (simp add: hosts_def)
  then obtain tm where tm: "map_of itms (tool_call_id u) = Some tm"
    by (metis domD dom_map_of_conv_image_fst)
  show ?thesis
    using Some loc ch lt m tm by (simp add: apply_tool_update_def Let_def)
qed

lemma apply_tool_update_valid:
  assumes "apply_tool_update now pos H u = Inr H'" and "valid_locations (channels H) pos"
  shows "valid_locations (channels H') pos"
proof -
  from apply_tool_update_result[OF assms(1)] show ?thesis
  proof
    assume "H' = H" then show ?thesis using assms(2) by simp
  next
    assume "\<exists>cid ch i c d s act tcs itms itms' t.
       pos (tool_call_id u) = Some (cid, i) \<and> map_of (channels H) cid = Some ch \<and>
       i < length (messages ch) \<and> messages ch ! i = AIMessage' c d s act tcs itms \<and>
       tool_call_id u \<in> fst ` set itms \<and>
       map fst itms' = map fst itms \<and> date t \<ge> date (last (messages ch)) \<and>
       H' = H\<lparr>channels := AList.update cid
              (ch\<lparr>messages := (messages ch)[i := AIMessage' c d s act tcs itms']
                     @ (if Suc i < length (messages ch) then [t] else [])\<rparr>) (channels H)\<rparr>"
    then obtain cid ch i c d s act tcs itms itms' t where
      ch: "map_of (channels H) cid = Some ch" and lt: "i < length (messages ch)" and
      m: "messages ch ! i = AIMessage' c d s act tcs itms" and
      keys: "map fst itms' = map fst itms" and
      H': "H' = H\<lparr>channels := AList.update cid
              (ch\<lparr>messages := (messages ch)[i := AIMessage' c d s act tcs itms']
                     @ (if Suc i < length (messages ch) then [t] else [])\<rparr>) (channels H)\<rparr>"
      by blast
    let ?ms = "(messages ch)[i := AIMessage' c d s act tcs itms']
                     @ (if Suc i < length (messages ch) then [t] else [])"
    have host: "\<And>j tid. j < length (messages ch) \<Longrightarrow> hosts (messages ch ! j) tid \<Longrightarrow>
        j < length ?ms \<and> hosts (?ms ! j) tid"
    proof -
      fix j tid assume j: "j < length (messages ch)" and h: "hosts (messages ch ! j) tid"
      show "j < length ?ms \<and> hosts (?ms ! j) tid"
      proof (cases "j = i")
        case True
        then show ?thesis using j h m keys by (simp add: nth_append hosts_def)
      next
        case False
        then show ?thesis using j h by (simp add: nth_append)
      qed
    qed
    show ?thesis
      unfolding valid_locations_def
    proof (intro allI impI)
      fix tid cid' j assume p: "pos tid = Some (cid', j)"
      from assms(2) p obtain ch' where ch': "map_of (channels H) cid' = Some ch'"
        and lt': "j < length (messages ch')" and h': "hosts (messages ch' ! j) tid"
        unfolding valid_locations_def by blast
      show "\<exists>ch. map_of (channels H') cid' = Some ch \<and> j < length (messages ch) \<and>
                 hosts (messages ch ! j) tid"
      proof (cases "cid' = cid")
        case True
        with ch ch' have "ch' = ch" by simp
        with host[of j tid] lt' h' True show ?thesis
          by (simp add: H' update_conv')
      next
        case False
        with ch' lt' h' show ?thesis by (simp add: H' update_conv')
      qed
    qed
  qed
qed

lemma apply_tool_updates_total:
  "valid_locations (channels H) pos \<Longrightarrow> \<exists>H'. apply_tool_updates now pos H us = Inr H'"
proof (induction us arbitrary: H)
  case Nil
  then show ?case by simp
next
  case (Cons u us)
  from apply_tool_update_total[OF Cons.prems, of now u] obtain H1 where
    1: "apply_tool_update now pos H u = Inr H1" by blast
  from Cons.IH[OF apply_tool_update_valid[OF 1 Cons.prems]] 1 show ?case by simp
qed

lemma apply_tool_updates_skip:
  assumes "\<And>u. u \<in> set us \<Longrightarrow> \<not> Q u \<Longrightarrow> pos (tool_call_id u) = None"
  shows "apply_tool_updates now pos H (filter Q us) = apply_tool_updates now pos H us"
  using assms
proof (induction us arbitrary: H)
  case Nil
  then show ?case by simp
next
  case (Cons u us)
  show ?case
  proof (cases "Q u")
    case True
    then show ?thesis using Cons by (auto split: sum.splits)
  next
    case False
    then have "pos (tool_call_id u) = None" using Cons.prems by simp
    then have "apply_tool_update now pos H u = Inr H" by (simp add: apply_tool_update_def)
    then show ?thesis using False Cons by simp
  qed
qed

lemma apply_all_wf:
  "apply_all_channel_updates now H cus = Inr H' \<Longrightarrow> wf_history H \<Longrightarrow> wf_history H'"
proof (induction cus arbitrary: H)
  case Nil
  then show ?case by simp
next
  case (Cons p cus)
  obtain c0 cu0 where p: "p = (c0, cu0)" by (cases p)
  let ?ch = "case map_of (channels H) c0 of None \<Rightarrow> new_Channel now c0 c0 | Some c \<Rightarrow> c"
  from Cons.prems(1) p obtain ch' where
    ch': "apply_channel_updates now c0 cu0 ?ch = Inr ch'" and
    rest: "apply_all_channel_updates now (H\<lparr>channels := AList.update c0 ch' (channels H)\<rparr>) cus = Inr H'"
    by (auto simp: Let_def split: sum.splits)
  have "channel_id ?ch = c0"
    using Cons.prems(2) by (auto split: option.splits simp: new_Channel_def dest: wf_history_lookup)
  then have id': "channel_id ch' = c0" using apply_channel_updates_channel_id[OF ch'] by simp
  have "wf_history (H\<lparr>channels := AList.update c0 ch' (channels H)\<rparr>)"
    using Cons.prems(2) id' set_update_subset[of c0 ch' "channels H"]
    by (auto simp: wf_history_def distinct_update)
  from Cons.IH[OF rest this] show ?case .
qed

section \<open>One tool update on a located message\<close>

lemma S1_wf: "wf_history S1_history"
  by (simp add: wf_history_def S1_history_def S1_channel_def new_Channel_def)

lemma S1_locate:
  "locate_tool_calls 5 S1_history [''t1''] = Some [''t1'' \<mapsto> (''c1'', 1)]"
  by (simp add: locate_tool_calls_def get_current_channel_def S1_history_def S1_channel_def
        S1_agent_def new_Channel_def locate_loop.simps)

lemma S3_channels:
  "apply_all_channel_updates 5 S1_history (channel_updates S3_updates) = Inr S3_history"
  by (simp add: S3_updates_def S1_history_def S3_history_def S3_channel_def S1_channel_def
        default_channel_updates_def apply_channel_updates_def
        apply_metadata_def apply_message_deletes_def apply_additions_def add_new_messages_def
        apply_truthy_metadata_def py_max_def new_Channel_def msg_at_def S1_agent_def)

lemma S3_locate:
  "locate_tool_calls 5 S3_history [''t9'', ''t1''] = Some [''t1'' \<mapsto> (''c1'', 1)]"
  by (simp add: locate_tool_calls_def get_current_channel_def S3_history_def S3_channel_def
        S1_channel_def S1_agent_def new_Channel_def msg_at_def locate_loop.simps)

lemma apply_tool_updates_append:
  "apply_tool_updates now pos H (xs @ ys) =
     (case apply_tool_updates now pos H xs of
        Inl e \<Rightarrow> Inl e
      | Inr G \<Rightarrow> apply_tool_updates now pos G ys)"
  by (induction xs arbitrary: H) (auto split: sum.splits)

lemma apply_tool_updates_valid:
  "apply_tool_updates now pos H us = Inr H' \<Longrightarrow> valid_locations (channels H) pos \<Longrightarrow>
   valid_locations (channels H') pos"
proof (induction us arbitrary: H)
  case Nil
  then show ?case by simp
next
  case (Cons u us)
  then obtain H1 where 1: "apply_tool_update now pos H u = Inr H1"
    and 2: "apply_tool_updates now pos H1 us = Inr H'"
    by (auto split: sum.splits)
  from Cons.IH[OF 2 apply_tool_update_valid[OF 1 Cons.prems(2)]] show ?case .
qed

lemma wf_history_current_channel:
  "wf_history H1 \<Longrightarrow>
   wf_history (case c of None \<Rightarrow> H1 | Some k \<Rightarrow> H1\<lparr>History.current_channel := Some k\<rparr>)"
  by (simp add: wf_history_def split: option.splits)

lemma apply_tool_update_located:
  assumes v: "valid_locations (channels G) pos"
    and p: "pos (tool_call_id u) = Some (cid, i)"
  shows "\<exists>ch c d s act tcs itms tm.
     map_of (channels G) cid = Some ch \<and> i < length (messages ch) \<and>
     messages ch ! i = AIMessage' c d s act tcs itms \<and>
     map_of itms (tool_call_id u) = Some tm \<and>
     apply_tool_update now pos G u =
       Inr (G\<lparr>channels := AList.update cid
         (ch\<lparr>messages :=
            (messages ch)
              [i := AIMessage' c d s act tcs
                 (AList.update (tool_call_id u)
                    (tm\<lparr>internal_status := internal_status u,
                        status := EXTERNAL_STATUS_MAPPING (internal_status u),
                        InternalToolMessage.content :=
                          (case InternalToolMessage.content u of
                             None \<Rightarrow> InternalToolMessage.content tm
                           | Some txt \<Rightarrow> if txt = [] then InternalToolMessage.content tm
                                         else Some txt)\<rparr>)
                    itms)]
            @ (if i = length (messages ch) - 1 then []
               else [SystemMessage' (''#toolupdated#'' @ tool_call_id u)
                       (max now (date (last (messages ch)))) None None (Some 1)])\<rparr>)
         (channels G)\<rparr>)"
proof -
  from v p obtain ch where
    ch: "map_of (channels G) cid = Some ch" and lt: "i < length (messages ch)" and
    h: "hosts (messages ch ! i) (tool_call_id u)"
    unfolding valid_locations_def by blast
  from h obtain c d s act tcs itms where m: "messages ch ! i = AIMessage' c d s act tcs itms"
    by (cases "messages ch ! i") (auto simp: hosts_def)
  with h have "tool_call_id u \<in> fst ` set itms" by (simp add: hosts_def)
  then obtain tm where tm: "map_of itms (tool_call_id u) = Some tm"
    by (metis domD dom_map_of_conv_image_fst)
  have ne: "messages ch \<noteq> []" using lt by auto
  have last_upd: "\<And>x. i \<noteq> length (messages ch) - 1 \<Longrightarrow>
      last ((messages ch)[i := x]) = last (messages ch)"
    using ne by (simp add: last_conv_nth)
  have cond: "(int i < int (length (messages ch)) - 1) = (i \<noteq> length (messages ch) - 1)"
    using lt by auto
  let ?R = "G\<lparr>channels := AList.update cid
         (ch\<lparr>messages :=
            (messages ch)
              [i := AIMessage' c d s act tcs
                 (AList.update (tool_call_id u)
                    (tm\<lparr>internal_status := internal_status u,
                        status := EXTERNAL_STATUS_MAPPING (internal_status u),
                        InternalToolMessage.content :=
                          (case InternalToolMessage.content u of
                             None \<Rightarrow> InternalToolMessage.content tm
                           | Some txt \<Rightarrow> if txt = [] then InternalToolMessage.content tm
                                         else Some txt)\<rparr>)
                    itms)]
            @ (if i = length (messages ch) - 1 then []
               else [SystemMessage' (''#toolupdated#'' @ tool_call_id u)
                       (max now (date (last (messages ch)))) None None (Some 1)])\<rparr>)
         (channels G)\<rparr>"
  have "apply_tool_update now pos G u = Inr ?R"
    using p ch lt m tm ne
    by (auto simp: apply_tool_update_def Let_def set_status_def toolupdated_message_def
          cond last_upd max_def split: option.splits)
  with ch lt m tm have "map_of (channels G) cid = Some ch \<and> i < length (messages ch) \<and>
     messages ch ! i = AIMessage' c d s act tcs itms \<and>
     map_of itms (tool_call_id u) = Some tm \<and>
     apply_tool_update now pos G u = Inr ?R"
    by (intro conjI)
  then show ?thesis by - ((rule exI)+, assumption)
qed

text \<open>
  Claim C7. The reducer applies an \<open>InternalUpdates\<close> \<open>U\<close>, with its channel diffs, its
  current channel and its list of tool updates; \<open>u\<close> is one of the tool updates, \<open>before\<close> are
  those that precede it and \<open>after\<close> those that follow. \<open>G\<close> is the history at the moment \<open>u\<close>
  is applied: the channel diffs, the current channel and the updates \<open>before\<close> are in it.
  When the tool call of \<open>u\<close> is located at message \<open>i\<close> of channel \<open>cid\<close>, that message of \<open>G\<close>
  is an agent message holding a state \<open>tm\<close> for the tool call; the state gets the internal
  status of the update, the mapped external status, and the content of the update when it
  is given (not empty). When the message is the last of its channel in \<open>G\<close>, nothing is
  appended; otherwise a system message \<open>#toolupdated#<id>\<close> with lifespan 1 is appended, dated
  now or, when that is later, at the date of the last message. The reducer then goes on
  with the updates \<open>after\<close>.
\<close>

theorem tool_update_on_located_message:
  assumes "wf_history H"
    and "apply_all_channel_updates now H (channel_updates U) = Inr H1"
    and "H2 = (case InternalUpdates.current_channel U of None \<Rightarrow> H1
               | Some k \<Rightarrow> H1\<lparr>History.current_channel := Some k\<rparr>)"
    and "tool_updates U = before @ u # after"
    and "locate_tool_calls now H2 (map tool_call_id (tool_updates U)) = Some pos"
    and "pos (tool_call_id u) = Some (cid, i)"
  shows "\<exists>G ch c d s act tcs itms tm.
     apply_tool_updates now pos H2 before = Inr G \<and>
     map_of (channels G) cid = Some ch \<and> i < length (messages ch) \<and>
     messages ch ! i = AIMessage' c d s act tcs itms \<and>
     map_of itms (tool_call_id u) = Some tm \<and>
     history_reducer now (Some H) (Updates U) =
       Some (apply_tool_updates now pos
         (G\<lparr>channels := AList.update cid
           (ch\<lparr>messages :=
              (messages ch)
                [i := AIMessage' c d s act tcs
                   (AList.update (tool_call_id u)
                      (tm\<lparr>internal_status := internal_status u,
                          status := EXTERNAL_STATUS_MAPPING (internal_status u),
                          InternalToolMessage.content :=
                            (case InternalToolMessage.content u of
                               None \<Rightarrow> InternalToolMessage.content tm
                             | Some txt \<Rightarrow> if txt = [] then InternalToolMessage.content tm
                                           else Some txt)\<rparr>)
                      itms)]
              @ (if i = length (messages ch) - 1 then []
                 else [SystemMessage' (''#toolupdated#'' @ tool_call_id u)
                         (max now (date (last (messages ch)))) None None (Some 1)])\<rparr>)
           (channels G)\<rparr>)
         after)"
proof -
  have "wf_history H1" by (rule apply_all_wf[OF assms(2,1)])
  then have wf2: "wf_history H2" unfolding assms(3) by (rule wf_history_current_channel)
  have v2: "valid_locations (channels H2) pos" by (rule locate_tool_calls_valid[OF wf2 assms(5)])
  from apply_tool_updates_total[OF v2, of now before] obtain G where
    G: "apply_tool_updates now pos H2 before = Inr G" by blast
  have vG: "valid_locations (channels G) pos" by (rule apply_tool_updates_valid[OF G v2])
  from apply_tool_update_located[OF vG assms(6), of now] obtain ch c d s act tcs itms tm where
    ch: "map_of (channels G) cid = Some ch" and lt: "i < length (messages ch)" and
    m: "messages ch ! i = AIMessage' c d s act tcs itms" and
    tm: "map_of itms (tool_call_id u) = Some tm" and
    step: "apply_tool_update now pos G u =
       Inr (G\<lparr>channels := AList.update cid
         (ch\<lparr>messages :=
            (messages ch)
              [i := AIMessage' c d s act tcs
                 (AList.update (tool_call_id u)
                    (tm\<lparr>internal_status := internal_status u,
                        status := EXTERNAL_STATUS_MAPPING (internal_status u),
                        InternalToolMessage.content :=
                          (case InternalToolMessage.content u of
                             None \<Rightarrow> InternalToolMessage.content tm
                           | Some txt \<Rightarrow> if txt = [] then InternalToolMessage.content tm
                                         else Some txt)\<rparr>)
                    itms)]
            @ (if i = length (messages ch) - 1 then []
               else [SystemMessage' (''#toolupdated#'' @ tool_call_id u)
                       (max now (date (last (messages ch)))) None None (Some 1)])\<rparr>)
         (channels G)\<rparr>)"
    by blast
  have ne: "tool_updates U \<noteq> []" using assms(4) by simp
  have red: "history_reducer now (Some H) (Updates U) =
      Some (apply_tool_updates now pos H2 (tool_updates U))"
    using assms(2,5) ne unfolding assms(3)
    by (simp add: history_reducer_def apply_internal_updates_def Let_def)
  have "apply_tool_updates now pos H2 (tool_updates U) =
      apply_tool_updates now pos G (u # after)"
    unfolding assms(4) apply_tool_updates_append using G by simp
  with red step have "history_reducer now (Some H) (Updates U) =
       Some (apply_tool_updates now pos
         (G\<lparr>channels := AList.update cid
           (ch\<lparr>messages :=
              (messages ch)
                [i := AIMessage' c d s act tcs
                   (AList.update (tool_call_id u)
                      (tm\<lparr>internal_status := internal_status u,
                          status := EXTERNAL_STATUS_MAPPING (internal_status u),
                          InternalToolMessage.content :=
                            (case InternalToolMessage.content u of
                               None \<Rightarrow> InternalToolMessage.content tm
                             | Some txt \<Rightarrow> if txt = [] then InternalToolMessage.content tm
                                           else Some txt)\<rparr>)
                      itms)]
              @ (if i = length (messages ch) - 1 then []
                 else [SystemMessage' (''#toolupdated#'' @ tool_call_id u)
                         (max now (date (last (messages ch)))) None None (Some 1)])\<rparr>)
           (channels G)\<rparr>)
         after)"
    by simp
  with G ch lt m tm have "apply_tool_updates now pos H2 before = Inr G \<and>
     map_of (channels G) cid = Some ch \<and> i < length (messages ch) \<and>
     messages ch ! i = AIMessage' c d s act tcs itms \<and>
     map_of itms (tool_call_id u) = Some tm \<and>
     history_reducer now (Some H) (Updates U) =
       Some (apply_tool_updates now pos
         (G\<lparr>channels := AList.update cid
           (ch\<lparr>messages :=
              (messages ch)
                [i := AIMessage' c d s act tcs
                   (AList.update (tool_call_id u)
                      (tm\<lparr>internal_status := internal_status u,
                          status := EXTERNAL_STATUS_MAPPING (internal_status u),
                          InternalToolMessage.content :=
                            (case InternalToolMessage.content u of
                               None \<Rightarrow> InternalToolMessage.content tm
                             | Some txt \<Rightarrow> if txt = [] then InternalToolMessage.content tm
                                           else Some txt)\<rparr>)
                      itms)]
              @ (if i = length (messages ch) - 1 then []
                 else [SystemMessage' (''#toolupdated#'' @ tool_call_id u)
                         (max now (date (last (messages ch)))) None None (Some 1)])\<rparr>)
           (channels G)\<rparr>)
         after)"
    by (intro conjI)
  then show ?thesis by - ((rule exI)+, assumption)
qed

theorem tool_update_on_located_message_witness:
  "wf_history S1_history \<and>
   apply_all_channel_updates 5 S1_history (channel_updates S3_updates) = Inr S3_history \<and>
   tool_updates S3_updates = [unknown_update] @ S1_confirm # [] \<and>
   locate_tool_calls 5 S3_history (map tool_call_id (tool_updates S3_updates)) =
     Some [''t1'' \<mapsto> (''c1'', 1)] \<and>
   history_reducer 5 (Some S1_history) (Updates S3_updates) = Some (Inr S3_after)"
proof -
  have c: "S3_history = (case InternalUpdates.current_channel S3_updates of None \<Rightarrow> S3_history
               | Some k \<Rightarrow> S3_history\<lparr>History.current_channel := Some k\<rparr>)"
    by (simp add: S3_updates_def S3_history_def)
  have t: "tool_updates S3_updates = [unknown_update] @ S1_confirm # []"
    by (simp add: S3_updates_def)
  have l: "locate_tool_calls 5 S3_history (map tool_call_id (tool_updates S3_updates)) =
      Some [''t1'' \<mapsto> (''c1'', 1)]"
    using S3_locate by (simp add: S3_updates_def unknown_update_def S1_confirm_def)
  have p: "[''t1'' \<mapsto> (''c1'', 1::nat)] (tool_call_id S1_confirm) = Some (''c1'', 1)"
    by (simp add: S1_confirm_def)
  from tool_update_on_located_message[OF S1_wf S3_channels c t l p]
  have "history_reducer 5 (Some S1_history) (Updates S3_updates) = Some (Inr S3_after)"
    by (auto simp: S3_history_def S3_channel_def S1_channel_def S1_agent_def S1_confirm_def
          S3_after_def S1_tool_state_def new_Channel_def msg_at_def unknown_update_def
          apply_tool_update_def)
  with S1_wf S3_channels t l show ?thesis by blast
qed

section \<open>Updates generated from tool responses\<close>

lemma S1_locate_t9:
  "locate_tool_calls 5 S1_history [''t9''] = Some Map.empty"
  by (simp add: locate_tool_calls_def get_current_channel_def S1_history_def S1_channel_def
        S1_agent_def new_Channel_def locate_loop.simps)

text \<open>
  Claim C2 at the input of scenario S1: the tool call \<open>t1\<close> is located at message 1 of channel
  \<open>c1\<close>, the method sets its state in the history it is called on, and the updates it
  returns have no channel diff at all, hence no \<open>message_updates\<close> entry for that message:
  nothing is ever stored in \<open>cached_messages\<close>, from which the entries are registered.
\<close>

theorem generate_updates_emits_no_message_update:
  "generate_updates_from_mcp_responses 5 S1_history [S1_response] =
     Some (Inr (S1_completed, default_updates)) \<and>
   channel_updates default_updates = []"
  using S1_locate
  by (simp add: generate_updates_from_mcp_responses_def S1_response_def S1_history_def
        S1_channel_def S1_agent_def S1_tool_state_def S1_completed_def new_Channel_def
        set_tool_state_def set_status_def note_tool_update_def default_updates_def)

text \<open>
  Claim C3 as stated fails for \<open>generate_updates_from_mcp_responses\<close>: a response whose tool
  call is in no channel makes it raise \<open>ValueError("Could not find location for tool
  call")\<close>.
\<close>

theorem generate_updates_raises_on_location_miss:
  "generate_updates_from_mcp_responses 5 S1_history [unknown_response] =
     Some (Inl NoLocationForToolCall)"
  using S1_locate_t9
  by (simp add: generate_updates_from_mcp_responses_def unknown_response_def)

section \<open>The search finds the tool calls that are hosted\<close>

lemma scan_keys_keeps:
  "snd st tid \<noteq> None \<Longrightarrow> snd (scan_keys cid i tids st) tid \<noteq> None"
  by (induction cid i tids st rule: scan_keys.induct) auto

lemma scan_keys_queue:
  "tid \<in> set (fst st) \<Longrightarrow>
   tid \<in> set (fst (scan_keys cid i tids st)) \<or> snd (scan_keys cid i tids st) tid \<noteq> None"
proof (induction cid i tids st rule: scan_keys.induct)
  case (1 cid index st)
  then show ?case by simp
next
  case (2 cid index t tids id_queue results)
  let ?st = "if t \<in> set id_queue then (remove1 t id_queue, results(t \<mapsto> (cid, index)))
             else (id_queue, results)"
  show ?case
  proof (cases "tid \<in> set (fst ?st)")
    case True
    from "2.IH"[OF True] show ?thesis by simp
  next
    case False
    have "t = tid \<and> t \<in> set id_queue"
    proof (cases "t \<in> set id_queue")
      case True
      with False have "tid \<notin> set (remove1 t id_queue)" by simp
      with "2.prems" have "t = tid" by (metis fst_conv in_set_remove1)
      with True show ?thesis by simp
    next
      case False
      with \<open>tid \<notin> set (fst ?st)\<close> "2.prems" show ?thesis by simp
    qed
    then have "snd ?st tid \<noteq> None" by auto
    from scan_keys_keeps[OF this] show ?thesis by simp
  qed
qed

lemma scan_keys_finds:
  "tid \<in> set (fst st) \<Longrightarrow> tid \<in> set tids \<Longrightarrow> snd (scan_keys cid i tids st) tid \<noteq> None"
proof (induction cid i tids st rule: scan_keys.induct)
  case (1 cid index st)
  then show ?case by simp
next
  case (2 cid index t tids id_queue results)
  let ?st = "if t \<in> set id_queue then (remove1 t id_queue, results(t \<mapsto> (cid, index)))
             else (id_queue, results)"
  show ?case
  proof (cases "t = tid")
    case True
    with "2.prems" have "snd ?st tid \<noteq> None" by simp
    from scan_keys_keeps[OF this] show ?thesis by simp
  next
    case False
    with "2.prems" have "tid \<in> set (fst ?st)" "tid \<in> set tids" by auto
    from "2.IH"[OF this] show ?thesis by simp
  qed
qed

lemma scan_messages_keeps:
  "snd st tid \<noteq> None \<Longrightarrow> snd (scan_messages cid i msgs st) tid \<noteq> None"
proof (induction msgs arbitrary: i st)
  case Nil
  then show ?case by simp
next
  case (Cons m msgs)
  let ?st = "case m of
          AIMessage' c d s act tcs itms \<Rightarrow>
            if tcs \<noteq> [] then scan_keys cid i (map fst itms) st else st
        | HumanMessage' c d s a i \<Rightarrow> st
        | SystemMessage' c d s a l \<Rightarrow> st"
  have "snd ?st tid \<noteq> None"
    using Cons.prems scan_keys_keeps[OF Cons.prems] by (cases m) auto
  from Cons.IH[OF this] show ?case by simp
qed

lemma scan_messages_queue:
  "tid \<in> set (fst st) \<Longrightarrow>
   tid \<in> set (fst (scan_messages cid i msgs st)) \<or> snd (scan_messages cid i msgs st) tid \<noteq> None"
proof (induction msgs arbitrary: i st)
  case Nil
  then show ?case by simp
next
  case (Cons m msgs)
  let ?st = "case m of
          AIMessage' c d s act tcs itms \<Rightarrow>
            if tcs \<noteq> [] then scan_keys cid i (map fst itms) st else st
        | HumanMessage' c d s a i \<Rightarrow> st
        | SystemMessage' c d s a l \<Rightarrow> st"
  have "tid \<in> set (fst ?st) \<or> snd ?st tid \<noteq> None"
    using Cons.prems scan_keys_queue[OF Cons.prems] by (cases m) auto
  then show ?case
  proof
    assume "tid \<in> set (fst ?st)"
    from Cons.IH[OF this] show ?thesis by simp
  next
    assume "snd ?st tid \<noteq> None"
    from scan_messages_keeps[OF this] show ?thesis by simp
  qed
qed

lemma scan_messages_finds:
  "tid \<in> set (fst st) \<Longrightarrow> m \<in> set msgs \<Longrightarrow> hosts_call m tid \<Longrightarrow>
   snd (scan_messages cid i msgs st) tid \<noteq> None"
proof (induction msgs arbitrary: i st)
  case Nil
  then show ?case by simp
next
  case (Cons a msgs)
  let ?st = "case a of
          AIMessage' c d s act tcs itms \<Rightarrow>
            if tcs \<noteq> [] then scan_keys cid i (map fst itms) st else st
        | HumanMessage' c d s a i \<Rightarrow> st
        | SystemMessage' c d s a l \<Rightarrow> st"
  have step: "tid \<in> set (fst ?st) \<or> snd ?st tid \<noteq> None"
    using Cons.prems(1) scan_keys_queue[OF Cons.prems(1)] by (cases a) auto
  show ?case
  proof (cases "a = m")
    case True
    from Cons.prems(3) obtain c d s act tcs itms where
      m: "m = AIMessage' c d s act tcs itms" and tcs: "tcs \<noteq> []" and
      key: "tid \<in> set (map fst itms)"
      by (cases m) (auto simp: hosts_call_def hosts_def)
    from scan_keys_finds[OF Cons.prems(1) key, of cid i]
    have "snd ?st tid \<noteq> None" using True m tcs by simp
    from scan_messages_keeps[OF this] show ?thesis by simp
  next
    case False
    with Cons.prems(2) have mem: "m \<in> set msgs" by simp
    from step show ?thesis
    proof
      assume "tid \<in> set (fst ?st)"
      from Cons.IH[OF this mem Cons.prems(3)] show ?thesis by simp
    next
      assume "snd ?st tid \<noteq> None"
      from scan_messages_keeps[OF this] show ?thesis by simp
    qed
  qed
qed

lemma next_channel_keeps:
  "cur \<noteq> None \<Longrightarrow> next_channel checked chans cur \<noteq> None"
proof (induction chans arbitrary: cur)
  case Nil
  then show ?case by simp
next
  case (Cons p chans)
  obtain cid channel where p: "p = (cid, channel)" by (cases p)
  let ?cur = "if cid \<in> set checked then cur
        else (case cur of
                None \<Rightarrow> Some channel
              | Some c \<Rightarrow> if last_activity channel > last_activity c then Some channel
                          else cur)"
  have "?cur \<noteq> None" using Cons.prems by (auto split: option.splits)
  from Cons.IH[OF this] show ?case using p by simp
qed

lemma next_channel_none:
  "next_channel checked chans cur = None \<Longrightarrow> (k, c) \<in> set chans \<Longrightarrow> k \<in> set checked"
proof (induction checked chans cur rule: next_channel.induct)
  case (1 checked_channels current)
  then show ?case by simp
next
  case (2 checked_channels cid channel rest current)
  let ?cur = "if cid \<in> set checked_channels then current
        else (case current of
                None \<Rightarrow> Some channel
              | Some c \<Rightarrow> if last_activity channel > last_activity c then Some channel
                          else current)"
  from "2.prems"(1) have n: "next_channel checked_channels rest ?cur = None" by simp
  show ?case
  proof (cases "(k, c) = (cid, channel)")
    case True
    show ?thesis
    proof (rule ccontr)
      assume "k \<notin> set checked_channels"
      with True have "?cur \<noteq> None" by (auto split: option.splits)
      from next_channel_keeps[OF this, of checked_channels rest] n show False by simp
    qed
  next
    case False
    with "2.prems"(2) have "(k, c) \<in> set rest" by auto
    from "2.IH"[OF n this] show ?thesis .
  qed
qed

lemma locate_loop_complete:
  assumes d: "distinct (map fst chans)" and ids: "\<forall>(k, c) \<in> set chans. channel_id c = k"
  shows "locate_loop chans current checked q results = Some r \<Longrightarrow>
     results tid \<noteq> None \<or>
     (tid \<in> set q \<and>
        (channel_hosts_call current tid \<or>
         (\<exists>(k, ch) \<in> set chans. k \<notin> set (checked @ [channel_id current]) \<and>
              channel_hosts_call ch tid))) \<Longrightarrow>
     r tid \<noteq> None"
proof (induction "card (fst ` set chans - set (checked @ [channel_id current]))"
    arbitrary: current checked q results rule: less_induct)
  case less
  obtain q' results' where sc:
    "scan_messages (channel_id current) 0 (messages current) (q, results) = (q', results')"
    by (cases "scan_messages (channel_id current) 0 (messages current) (q, results)")
  have unfold: "locate_loop chans current checked q results =
      (if q' \<noteq> [] then
          (case next_channel (checked @ [channel_id current]) chans None of
             None \<Rightarrow> Some results'
           | Some c \<Rightarrow> locate_loop chans c (checked @ [channel_id current]) q' results')
        else Some results')"
    by (subst locate_loop.simps) (simp only: sc prod.case)
  have keeps: "results tid \<noteq> None \<Longrightarrow> results' tid \<noteq> None"
    using scan_messages_keeps[of "(q, results)" tid "channel_id current" 0 "messages current"] sc
    by simp
  have queue: "tid \<in> set q \<Longrightarrow> tid \<in> set q' \<or> results' tid \<noteq> None"
    using scan_messages_queue[of tid "(q, results)" "channel_id current" 0 "messages current"] sc
    by simp
  have finds: "tid \<in> set q \<Longrightarrow> channel_hosts_call current tid \<Longrightarrow> results' tid \<noteq> None"
    using scan_messages_finds[of tid "(q, results)" _ "messages current" "channel_id current" 0] sc
    by (auto simp: channel_hosts_call_def)
  let ?checked = "checked @ [channel_id current]"
  from less.prems(2) consider
      (found) "results' tid \<noteq> None"
    | (later) k ch where "tid \<in> set q'" "(k, ch) \<in> set chans" "k \<notin> set ?checked"
        "channel_hosts_call ch tid"
    using keeps queue finds by blast
  then show ?case
  proof cases
    case found
    show ?thesis
    proof (cases "q' = []")
      case True
      then have "r = results'" using less.prems(1) by (simp add: unfold)
      with found show ?thesis by simp
    next
      case False
      show ?thesis
      proof (cases "next_channel ?checked chans None")
        case None
        then have "r = results'" using less.prems(1) False by (simp add: unfold)
        with found show ?thesis by simp
      next
        case (Some c)
        from next_channel_from[OF Some] obtain k0 where
          k0: "(k0, c) \<in> set chans" "k0 \<notin> set ?checked" by auto
        then have ck: "channel_id c = k0" using ids by auto
        let ?K = "fst ` set chans"
        have "k0 \<in> ?K - set ?checked" using k0 by (force simp: image_iff)
        moreover have "k0 \<notin> ?K - set (?checked @ [channel_id c])" using ck by simp
        moreover have "?K - set (?checked @ [channel_id c]) \<subseteq> ?K - set ?checked" by auto
        ultimately have "?K - set (?checked @ [channel_id c]) \<subset> ?K - set ?checked" by blast
        then have m: "card (?K - set (?checked @ [channel_id c])) < card (?K - set ?checked)"
          by (intro psubset_card_mono) auto
        have run: "locate_loop chans c ?checked q' results' = Some r"
          using less.prems(1) False Some by (simp add: unfold)
        from less.hyps[OF m run] found show ?thesis by blast
      qed
    qed
  next
    case later
    then have ne: "q' \<noteq> []" by auto
    show ?thesis
    proof (cases "next_channel ?checked chans None")
      case None
      from next_channel_none[OF None later(2)] later(3) show ?thesis by simp
    next
      case (Some c)
      from next_channel_from[OF Some] obtain k0 where
        k0: "(k0, c) \<in> set chans" "k0 \<notin> set ?checked" by auto
      then have ck: "channel_id c = k0" using ids by auto
      let ?K = "fst ` set chans"
      have "k0 \<in> ?K - set ?checked" using k0 by (force simp: image_iff)
      moreover have "k0 \<notin> ?K - set (?checked @ [channel_id c])" using ck by simp
      moreover have "?K - set (?checked @ [channel_id c]) \<subseteq> ?K - set ?checked" by auto
      ultimately have "?K - set (?checked @ [channel_id c]) \<subset> ?K - set ?checked" by blast
      then have m: "card (?K - set (?checked @ [channel_id c])) < card (?K - set ?checked)"
        by (intro psubset_card_mono) auto
      have run: "locate_loop chans c ?checked q' results' = Some r"
        using less.prems(1) ne Some by (simp add: unfold)
      have "channel_hosts_call c tid \<or>
         (\<exists>(k, ch) \<in> set chans. k \<notin> set (?checked @ [channel_id c]) \<and>
              channel_hosts_call ch tid)"
      proof (cases "k = k0")
        case True
        with later(2) k0(1) d have "ch = c"
          by (metis map_of_is_SomeI option.inject)
        with later(4) show ?thesis by simp
      next
        case False
        with later(2,3,4) ck show ?thesis by auto
      qed
      with later(1) less.hyps[OF m run] show ?thesis by blast
    qed
  qed
qed

lemma locate_tool_calls_complete:
  assumes wf: "wf_history H"
    and cur: "History.current_channel H = None \<longrightarrow> ''unregistered'' \<notin> fst ` set (channels H)"
    and loc: "locate_tool_calls now H tids = Some pos"
    and tid: "tid \<in> set tids" and f: "findable H tid"
  shows "pos tid \<noteq> None"
proof -
  from wf have d: "distinct (map fst (channels H))"
    and ids: "\<forall>(k, c) \<in> set (channels H). channel_id c = k"
    by (simp_all add: wf_history_def)
  from f obtain k ch where k: "(k, ch) \<in> set (channels H)" and h: "channel_hosts_call ch tid"
    by (auto simp: findable_def channel_hosts_call_def)
  let ?cur = "get_current_channel now H"
  have "channel_hosts_call ?cur tid \<or>
     (\<exists>(k, ch) \<in> set (channels H). k \<notin> set ([] @ [channel_id ?cur]) \<and>
          channel_hosts_call ch tid)"
  proof (cases "k = channel_id ?cur")
    case False
    with k h show ?thesis by auto
  next
    case True
    from k d have look: "map_of (channels H) k = Some ch" by simp
    have "?cur = ch"
    proof (cases "History.current_channel H")
      case None
      then have "channel_id ?cur = ''unregistered''"
        by (simp add: get_current_channel_def new_Channel_def)
      with True k cur None show ?thesis by (force simp: image_iff)
    next
      case (Some c)
      show ?thesis
      proof (cases "map_of (channels H) c")
        case None
        with Some have "channel_id ?cur = c"
          by (simp add: get_current_channel_def new_Channel_def)
        with True look None show ?thesis by simp
      next
        case (Some channel)
        with \<open>History.current_channel H = Some c\<close> have g: "?cur = channel"
          by (simp add: get_current_channel_def)
        from wf_history_lookup[OF wf Some] have "channel_id channel = c" .
        with g True look Some show ?thesis by simp
      qed
    qed
    with h show ?thesis by simp
  qed
  with tid locate_loop_complete[OF d ids loc[unfolded locate_tool_calls_def], of tid]
  show ?thesis by blast
qed

section \<open>Responses and updates for unknown tool calls\<close>

lemma valid_locations_update_message:
  assumes v: "valid_locations chans locs"
    and ch: "map_of chans cid = Some ch" and lt: "i < length (messages ch)"
    and h: "\<And>tid. hosts (messages ch ! i) tid \<Longrightarrow> hosts m' tid"
  shows "valid_locations (AList.update cid (ch\<lparr>messages := (messages ch)[i := m']\<rparr>) chans) locs"
  unfolding valid_locations_def
proof (intro allI impI)
  fix tid cid' j assume p: "locs tid = Some (cid', j)"
  from v p obtain ch' where ch': "map_of chans cid' = Some ch'"
    and lt': "j < length (messages ch')" and h': "hosts (messages ch' ! j) tid"
    unfolding valid_locations_def by blast
  show "\<exists>cha. map_of (AList.update cid (ch\<lparr>messages := (messages ch)[i := m']\<rparr>) chans) cid'
                = Some cha \<and> j < length (messages cha) \<and> hosts (messages cha ! j) tid"
  proof (cases "cid' = cid")
    case True
    with ch ch' have eq: "ch' = ch" by simp
    show ?thesis
    proof (cases "j = i")
      case True
      with \<open>cid' = cid\<close> eq lt' h' h show ?thesis by (simp add: update_conv')
    next
      case False
      with \<open>cid' = cid\<close> eq lt' h' show ?thesis by (simp add: update_conv')
    qed
  next
    case False
    with ch' lt' h' show ?thesis by (simp add: update_conv')
  qed
qed

lemma set_tool_state_hosted:
  assumes "hosts m (tm_tool_call_id (tool_message r))"
  shows "\<exists>m'. set_tool_state r m = Inr m' \<and> (\<forall>tid. hosts m tid \<longrightarrow> hosts m' tid)"
proof -
  from assms obtain c d s act tcs itms where m: "m = AIMessage' c d s act tcs itms"
    by (cases m) (auto simp: hosts_def)
  with assms have "tm_tool_call_id (tool_message r) \<in> fst ` set itms" by (simp add: hosts_def)
  then obtain tm where tm: "map_of itms (tm_tool_call_id (tool_message r)) = Some tm"
    by (metis domD dom_map_of_conv_image_fst)
  then have key: "tm_tool_call_id (tool_message r) \<in> fst ` set itms"
    by (metis domI dom_map_of_conv_image_fst)
  let ?itms = "AList.update (tm_tool_call_id (tool_message r))
      (set_status (mcp_status r) (Some (tm_content (tool_message r))) tm) itms"
  have "map fst ?itms = map fst itms" using key by (simp add: update_keys)
  then have "set (map fst ?itms) = set (map fst itms)" by (rule arg_cong)
  then have keys: "fst ` set ?itms = fst ` set itms" unfolding set_map .
  show ?thesis using m tm keys
    by (simp add: set_tool_state_def hosts_def)
qed

lemma generate_loop_raises:
  "valid_locations (channels self) locs \<Longrightarrow> r \<in> set rs \<Longrightarrow>
   locs (tm_tool_call_id (tool_message r)) = None \<Longrightarrow>
   generate_loop now locs rs (self, upd, [], bound) = Inl NoLocationForToolCall"
proof (induction rs arbitrary: self upd bound)
  case Nil
  then show ?case by simp
next
  case (Cons a rs)
  show ?case
  proof (cases "locs (tm_tool_call_id (tool_message a))")
    case None
    then show ?thesis by simp
  next
    case (Some loc)
    obtain cid i where loc: "loc = (cid, i)" by (cases loc)
    from Some Cons.prems have r: "r \<in> set rs" by auto
    from Cons.prems(1) Some loc obtain ch where ch: "map_of (channels self) cid = Some ch"
      and lt: "i < length (messages ch)"
      and h: "hosts (messages ch ! i) (tm_tool_call_id (tool_message a))"
      unfolding valid_locations_def by blast
    from set_tool_state_hosted[OF h] obtain m' where
      m': "set_tool_state a (messages ch ! i) = Inr m'"
      and keep: "\<And>tid. hosts (messages ch ! i) tid \<Longrightarrow> hosts m' tid" by blast
    let ?self = "self\<lparr>channels :=
        AList.update cid (ch\<lparr>messages := (messages ch)[i := m']\<rparr>) (channels self)\<rparr>"
    have v: "valid_locations (channels ?self) locs"
      using valid_locations_update_message[OF Cons.prems(1) ch lt keep] by simp
    have look: "map_of (channels ?self) cid = Some (ch\<lparr>messages := (messages ch)[i := m']\<rparr>)"
      by (simp add: update_conv')
    obtain upd' where n: "note_tool_update now (tm_tool_call_id (tool_message a)) cid i ?self upd
        = Inr upd'"
      using look by (simp add: note_tool_update_def)
    have "generate_loop now locs (a # rs) (self, upd, [], bound) =
        generate_loop now locs rs (?self, upd', [], Some (cid, i))"
      using Some loc ch lt m' n by (simp add: Let_def)
    with Cons.IH[OF v r Cons.prems(3)] show ?thesis by simp
  qed
qed

lemma present_current_channel [simp]:
  "present (H\<lparr>History.current_channel := c\<rparr>) tid = present H tid"
  by (simp add: present_def)

text \<open>
  Claim C3 as amended. The reducer skips the tool updates whose tool call is in no channel:
  on a history whose channels are stored under their ids, once the channel diffs have
  been applied, the search for the tool calls returns, it locates no tool call that no
  message hosts, the reducer returns a history, and that history is the one obtained from
  the updates whose tool call is present alone. The remaining updates are applied: the
  search locates every tool call that an agent message with tool calls hosts (when the
  history has no current channel, provided no channel has the id \<open>unregistered\<close>, which the
  search takes for the current one). \<open>generate_updates_from_mcp_responses\<close> does not skip:
  with a response whose tool call is in no channel, it raises \<open>ValueError("Could not find
  location for tool call")\<close>.
\<close>

theorem location_miss_is_skipped_by_the_reducer:
  "(wf_history H \<longrightarrow> apply_all_channel_updates now H (channel_updates U) = Inr H1 \<longrightarrow>
    H2 = (case InternalUpdates.current_channel U of None \<Rightarrow> H1
          | Some c \<Rightarrow> H1\<lparr>History.current_channel := Some c\<rparr>) \<longrightarrow>
    (\<exists>pos H'.
       locate_tool_calls now H2 (map tool_call_id (tool_updates U)) = Some pos \<and>
       history_reducer now (Some H) (Updates U) = Some (Inr H') \<and>
       apply_tool_updates now pos H2
         (filter (\<lambda>u. present H2 (tool_call_id u)) (tool_updates U)) = Inr H' \<and>
       (\<forall>u \<in> set (tool_updates U).
          \<not> present H2 (tool_call_id u) \<longrightarrow> pos (tool_call_id u) = None) \<and>
       ((History.current_channel H2 = None \<longrightarrow> ''unregistered'' \<notin> fst ` set (channels H2)) \<longrightarrow>
        (\<forall>u \<in> set (tool_updates U).
           findable H2 (tool_call_id u) \<longrightarrow> pos (tool_call_id u) \<noteq> None)))) \<and>
   (wf_history G \<longrightarrow> r \<in> set rs \<longrightarrow> \<not> present G (tm_tool_call_id (tool_message r)) \<longrightarrow>
    generate_updates_from_mcp_responses now G rs = Some (Inl NoLocationForToolCall))"
proof (intro conjI impI)
  assume wf: "wf_history H"
    and H1: "apply_all_channel_updates now H (channel_updates U) = Inr H1"
    and H2: "H2 = (case InternalUpdates.current_channel U of None \<Rightarrow> H1
          | Some c \<Rightarrow> H1\<lparr>History.current_channel := Some c\<rparr>)"
  have "wf_history H1" by (rule apply_all_wf[OF H1 wf])
  then have wf2: "wf_history H2" by (simp add: H2 wf_history_def split: option.splits)
  from locate_tool_calls_terminates[OF wf2, of now "map tool_call_id (tool_updates U)"]
  obtain pos where pos: "locate_tool_calls now H2 (map tool_call_id (tool_updates U)) = Some pos"
    by blast
  have v: "valid_locations (channels H2) pos" by (rule locate_tool_calls_valid[OF wf2 pos])
  from apply_tool_updates_total[OF v, of now "tool_updates U"] obtain H' where
    H': "apply_tool_updates now pos H2 (tool_updates U) = Inr H'" by blast
  have np: "\<And>u. \<not> present H2 (tool_call_id u) \<Longrightarrow> pos (tool_call_id u) = None"
    using valid_locations_present[OF v] by (metis not_Some_eq)
  have skip: "apply_tool_updates now pos H2
         (filter (\<lambda>u. present H2 (tool_call_id u)) (tool_updates U)) = Inr H'"
  proof -
    have "apply_tool_updates now pos H2
         (filter (\<lambda>u. present H2 (tool_call_id u)) (tool_updates U)) =
       apply_tool_updates now pos H2 (tool_updates U)"
      by (rule apply_tool_updates_skip) (rule np)
    then show ?thesis using H' by simp
  qed
  have red: "history_reducer now (Some H) (Updates U) = Some (Inr H')"
  proof (cases "tool_updates U = []")
    case True
    then show ?thesis using H1 H' H2
      by (simp add: history_reducer_def apply_internal_updates_def Let_def)
  next
    case False
    then show ?thesis using H1 H' pos H2
      by (simp add: history_reducer_def apply_internal_updates_def Let_def)
  qed
  have miss: "\<forall>u \<in> set (tool_updates U).
          \<not> present H2 (tool_call_id u) \<longrightarrow> pos (tool_call_id u) = None"
    using np by blast
  have found: "(History.current_channel H2 = None \<longrightarrow> ''unregistered'' \<notin> fst ` set (channels H2)) \<longrightarrow>
        (\<forall>u \<in> set (tool_updates U).
           findable H2 (tool_call_id u) \<longrightarrow> pos (tool_call_id u) \<noteq> None)"
  proof (intro impI ballI)
    fix u
    assume c: "History.current_channel H2 = None \<longrightarrow> ''unregistered'' \<notin> fst ` set (channels H2)"
      and u: "u \<in> set (tool_updates U)" and f: "findable H2 (tool_call_id u)"
    from u have "tool_call_id u \<in> set (map tool_call_id (tool_updates U))" by simp
    from locate_tool_calls_complete[OF wf2 c pos this f]
    show "pos (tool_call_id u) \<noteq> None" .
  qed
  from pos red skip miss found show "\<exists>pos H'.
       locate_tool_calls now H2 (map tool_call_id (tool_updates U)) = Some pos \<and>
       history_reducer now (Some H) (Updates U) = Some (Inr H') \<and>
       apply_tool_updates now pos H2
         (filter (\<lambda>u. present H2 (tool_call_id u)) (tool_updates U)) = Inr H' \<and>
       (\<forall>u \<in> set (tool_updates U).
          \<not> present H2 (tool_call_id u) \<longrightarrow> pos (tool_call_id u) = None) \<and>
       ((History.current_channel H2 = None \<longrightarrow> ''unregistered'' \<notin> fst ` set (channels H2)) \<longrightarrow>
        (\<forall>u \<in> set (tool_updates U).
           findable H2 (tool_call_id u) \<longrightarrow> pos (tool_call_id u) \<noteq> None))"
    by blast
next
  assume wf: "wf_history G" and r: "r \<in> set rs"
    and np: "\<not> present G (tm_tool_call_id (tool_message r))"
  let ?ids = "map (\<lambda>response. tm_tool_call_id (tool_message response)) rs"
  from locate_tool_calls_terminates[OF wf, of now ?ids]
  obtain locs where locs: "locate_tool_calls now G ?ids = Some locs" by blast
  have v: "valid_locations (channels G) locs" by (rule locate_tool_calls_valid[OF wf locs])
  have none: "locs (tm_tool_call_id (tool_message r)) = None"
    using valid_locations_present[OF v] np by (metis not_Some_eq)
  have "generate_loop now locs rs (G, default_updates, [], None) = Inl NoLocationForToolCall"
    by (rule generate_loop_raises[OF v r none])
  then show "generate_updates_from_mcp_responses now G rs = Some (Inl NoLocationForToolCall)"
    using locs by (simp add: generate_updates_from_mcp_responses_def)
qed

lemma S1_not_present_t9: "\<not> present S1_history ''t9''"
  by (simp add: present_def hosts_def S1_history_def S1_channel_def S1_agent_def new_Channel_def)

lemma S3_not_present_t9: "\<not> present S3_history ''t9''"
  by (simp add: present_def hosts_def S3_history_def S3_channel_def S1_channel_def S1_agent_def
        new_Channel_def msg_at_def)

lemma S3_findable_t1: "findable S3_history ''t1''"
  by (simp add: findable_def hosts_call_def hosts_def S3_history_def S3_channel_def
        S1_channel_def S1_agent_def new_Channel_def msg_at_def)

lemma S3_present_t1: "present S3_history ''t1''"
  by (simp add: present_def hosts_def S3_history_def S3_channel_def
        S1_channel_def S1_agent_def new_Channel_def msg_at_def)

theorem location_miss_is_skipped_by_the_reducer_witness:
  "wf_history S1_history \<and>
   apply_all_channel_updates 5 S1_history (channel_updates S3_updates) = Inr S3_history \<and>
   tool_updates S3_updates = [unknown_update, S1_confirm] \<and>
   History.current_channel S3_history = Some ''c1'' \<and>
   locate_tool_calls 5 S3_history (map tool_call_id (tool_updates S3_updates)) =
     Some [''t1'' \<mapsto> (''c1'', 1)] \<and>
   \<not> present S3_history (tool_call_id unknown_update) \<and>
   findable S3_history (tool_call_id S1_confirm) \<and>
   history_reducer 5 (Some S1_history) (Updates S3_updates) = Some (Inr S3_after) \<and>
   \<not> present S1_history (tm_tool_call_id (tool_message unknown_response)) \<and>
   generate_updates_from_mcp_responses 5 S1_history [S1_response, unknown_response] =
     Some (Inl NoLocationForToolCall)"
proof -
  have c: "S3_history = (case InternalUpdates.current_channel S3_updates of None \<Rightarrow> S3_history
               | Some k \<Rightarrow> S3_history\<lparr>History.current_channel := Some k\<rparr>)"
    by (simp add: S3_updates_def S3_history_def)
  have t: "tool_updates S3_updates = [unknown_update, S1_confirm]"
    by (simp add: S3_updates_def)
  have np: "\<not> present S3_history (tool_call_id unknown_update)"
    using S3_not_present_t9 by (simp add: unknown_update_def)
  have f: "findable S3_history (tool_call_id S1_confirm)"
    using S3_findable_t1 by (simp add: S1_confirm_def)
  have p: "present S3_history (tool_call_id S1_confirm)"
    using S3_present_t1 by (simp add: S1_confirm_def)
  have np': "\<not> present S1_history (tm_tool_call_id (tool_message unknown_response))"
    using S1_not_present_t9 by (simp add: unknown_response_def)
  have r: "unknown_response \<in> set [S1_response, unknown_response]" by simp
  have l: "locate_tool_calls 5 S3_history (map tool_call_id (tool_updates S3_updates)) =
      Some [''t1'' \<mapsto> (''c1'', 1)]"
    using S3_locate by (simp add: S3_updates_def unknown_update_def S1_confirm_def)
  note inst = location_miss_is_skipped_by_the_reducer
    [of S1_history 5 S3_updates S3_history S3_history S1_history unknown_response
        "[S1_response, unknown_response]"]
  from inst S1_wf S3_channels c obtain pos H' where
    pos: "locate_tool_calls 5 S3_history (map tool_call_id (tool_updates S3_updates)) = Some pos"
    and red: "history_reducer 5 (Some S1_history) (Updates S3_updates) = Some (Inr H')"
    and app: "apply_tool_updates 5 pos S3_history
         (filter (\<lambda>u. present S3_history (tool_call_id u)) (tool_updates S3_updates)) = Inr H'"
    by blast
  from pos l have pos_eq: "pos = [''t1'' \<mapsto> (''c1'', 1)]" by simp
  have "apply_tool_updates 5 [''t1'' \<mapsto> (''c1'', 1)] S3_history [S1_confirm] = Inr S3_after"
    by (simp add: apply_tool_update_def S3_history_def S3_channel_def S1_channel_def
          S1_agent_def S1_confirm_def S3_after_def S1_tool_state_def new_Channel_def msg_at_def
          set_status_def toolupdated_message_def)
  with app np p have "H' = S3_after" unfolding pos_eq t by simp
  with red have red': "history_reducer 5 (Some S1_history) (Updates S3_updates) = Some (Inr S3_after)"
    by simp
  from inst S1_wf r np'
  have gen: "generate_updates_from_mcp_responses 5 S1_history [S1_response, unknown_response] =
     Some (Inl NoLocationForToolCall)"
    by blast
  have cc: "History.current_channel S3_history = Some ''c1''" by (simp add: S3_history_def)
  from S1_wf S3_channels t cc l np f red' np' gen show ?thesis by blast
qed

section \<open>Updates of disjoint channels commute\<close>

lemma channels_set_current [simp]: "channels (set_current u h) = channels h"
  by (simp add: set_current_def split: option.splits)

lemma reducer_without_tool_updates:
  "tool_updates U = [] \<Longrightarrow>
   history_reducer now (Some H) (Updates U) =
     Some (case apply_all_channel_updates now H (channel_updates U) of
             Inl e \<Rightarrow> Inl e | Inr H1 \<Rightarrow> Inr (set_current U H1))"
  by (simp add: history_reducer_def apply_internal_updates_def set_current_def Let_def
      split: sum.splits)

lemma apply_all_cong:
  assumes "\<forall>k\<in>K. map_of (channels H) k = map_of (channels G) k" and "fst ` set cus \<subseteq> K"
  shows "(\<exists>e. apply_all_channel_updates now H cus = Inl e \<and>
              apply_all_channel_updates now G cus = Inl e) \<or>
         (\<exists>H' G'. apply_all_channel_updates now H cus = Inr H' \<and>
              apply_all_channel_updates now G cus = Inr G' \<and>
              (\<forall>k\<in>K. map_of (channels H') k = map_of (channels G') k))"
  using assms
proof (induction cus arbitrary: H G)
  case Nil
  then show ?case by simp
next
  case (Cons p cus)
  obtain c0 cu0 where p: "p = (c0, cu0)" by (cases p)
  have c0: "c0 \<in> K" using Cons.prems(2) p by simp
  let ?ch = "case map_of (channels H) c0 of None \<Rightarrow> new_Channel now c0 c0 | Some c \<Rightarrow> c"
  have same: "(case map_of (channels G) c0 of None \<Rightarrow> new_Channel now c0 c0 | Some c \<Rightarrow> c) = ?ch"
    using Cons.prems(1) c0 by simp
  show ?case
  proof (cases "apply_channel_updates now c0 cu0 ?ch")
    case (Inl e)
    then show ?thesis using p same by (simp add: Let_def)
  next
    case (Inr ch')
    let ?H = "H\<lparr>channels := AList.update c0 ch' (channels H)\<rparr>"
    let ?G = "G\<lparr>channels := AList.update c0 ch' (channels G)\<rparr>"
    have agree: "\<forall>k\<in>K. map_of (channels ?H) k = map_of (channels ?G) k"
      using Cons.prems(1) by (simp add: update_conv')
    have sub: "fst ` set cus \<subseteq> K" using Cons.prems(2) by simp
    have "apply_all_channel_updates now H (p # cus) = apply_all_channel_updates now ?H cus"
      using p Inr by (simp add: Let_def)
    moreover have "apply_all_channel_updates now G (p # cus) = apply_all_channel_updates now ?G cus"
      using p Inr same by (simp add: Let_def)
    ultimately show ?thesis using Cons.IH[OF agree sub] by simp
  qed
qed

lemma current_channel_set_current:
  "History.current_channel (set_current u h) =
     (case InternalUpdates.current_channel u of None \<Rightarrow> History.current_channel h
      | Some c \<Rightarrow> Some c)"
  by (simp add: set_current_def split: option.splits)

lemma apply_all_set_current:
  "apply_all_channel_updates now (set_current u H) cus =
     (case apply_all_channel_updates now H cus of Inl e \<Rightarrow> Inl e
      | Inr H' \<Rightarrow> Inr (set_current u H'))"
proof (induction cus arbitrary: H)
  case Nil
  then show ?case by simp
next
  case (Cons p cus)
  obtain c0 cu0 where p: "p = (c0, cu0)" by (cases p)
  have "(set_current u H)\<lparr>channels := x\<rparr> = set_current u (H\<lparr>channels := x\<rparr>)" for x
    by (simp add: set_current_def split: option.splits)
  then show ?case using Cons.IH p
    by (simp add: Let_def split: sum.splits)
qed

lemma disjoint_updates_commute_at_readings:
  assumes "fst ` set (channel_updates U1) \<inter> fst ` set (channel_updates U2) = {}"
    and "tool_updates U1 = []" and "tool_updates U2 = []"
    and "InternalUpdates.current_channel U1 = None \<or> InternalUpdates.current_channel U2 = None"
  shows "(\<exists>A B. then_reduce (history_reducer n1 (Some H) (Updates U1)) n2 U2 = Some (Inr A) \<and>
               then_reduce (history_reducer n2 (Some H) (Updates U2)) n1 U1 = Some (Inr B) \<and>
               same_history A B) \<or>
         (\<exists>e e'. then_reduce (history_reducer n1 (Some H) (Updates U1)) n2 U2 = Some (Inl e) \<and>
               then_reduce (history_reducer n2 (Some H) (Updates U2)) n1 U1 = Some (Inl e'))"
proof -
  let ?K1 = "fst ` set (channel_updates U1)" and ?K2 = "fst ` set (channel_updates U2)"
  let ?run1 = "\<lambda>h. apply_all_channel_updates n1 h (channel_updates U1)"
  let ?run2 = "\<lambda>h. apply_all_channel_updates n2 h (channel_updates U2)"
  have r1: "history_reducer n1 (Some h) (Updates U1) =
      Some (case ?run1 h of Inl e \<Rightarrow> Inl e | Inr h1 \<Rightarrow> Inr (set_current U1 h1))" for h
    by (rule reducer_without_tool_updates[OF assms(2)])
  have r2: "history_reducer n2 (Some h) (Updates U2) =
      Some (case ?run2 h of Inl e \<Rightarrow> Inl e | Inr h1 \<Rightarrow> Inr (set_current U2 h1))" for h
    by (rule reducer_without_tool_updates[OF assms(3)])
  have o12: "then_reduce (history_reducer n1 (Some H) (Updates U1)) n2 U2 =
      Some (case ?run1 H of Inl e \<Rightarrow> Inl e
            | Inr h1 \<Rightarrow> (case ?run2 h1 of Inl e \<Rightarrow> Inl e
                          | Inr h12 \<Rightarrow> Inr (set_current U2 (set_current U1 h12))))"
    by (simp add: then_reduce_def r1 r2 apply_all_set_current split: sum.splits)
  have o21: "then_reduce (history_reducer n2 (Some H) (Updates U2)) n1 U1 =
      Some (case ?run2 H of Inl e \<Rightarrow> Inl e
            | Inr h2 \<Rightarrow> (case ?run1 h2 of Inl e \<Rightarrow> Inl e
                          | Inr h21 \<Rightarrow> Inr (set_current U1 (set_current U2 h21))))"
    by (simp add: then_reduce_def r1 r2 apply_all_set_current split: sum.splits)
  have cc: "History.current_channel (set_current U2 (set_current U1 a)) =
            History.current_channel (set_current U1 (set_current U2 b))"
    if "History.current_channel a = History.current_channel b" for a b
    using assms(4) that by (auto simp: current_channel_set_current split: option.splits)
  show ?thesis
  proof (cases "?run1 H")
    case (Inl e)
    note run1 = this
    show ?thesis
    proof (cases "?run2 H")
      case (Inl e')
      then show ?thesis using run1 by (simp add: o12 o21)
    next
      case (Inr h2)
      have "\<forall>k\<in>?K1. map_of (channels h2) k = map_of (channels H) k"
        using apply_all_untouched[OF Inr] assms(1) by blast
      from apply_all_cong[OF this subset_refl, of n1] run1
      obtain e' where "?run1 h2 = Inl e'" by auto
      then show ?thesis using run1 Inr by (simp add: o12 o21)
    qed
  next
    case (Inr h1)
    note run1 = this
    have ag1: "\<forall>k\<in>?K2. map_of (channels h1) k = map_of (channels H) k"
      using apply_all_untouched[OF run1] assms(1) by blast
    show ?thesis
    proof (cases "?run2 H")
      case (Inl e')
      from apply_all_cong[OF ag1 subset_refl, of n2] Inl
      obtain e where "?run2 h1 = Inl e" by auto
      then show ?thesis using run1 Inl by (simp add: o12 o21)
    next
      case (Inr h2)
      note run2 = this
      have ag2: "\<forall>k\<in>?K1. map_of (channels h2) k = map_of (channels H) k"
        using apply_all_untouched[OF run2] assms(1) by blast
      from apply_all_cong[OF ag1 subset_refl, of n2] run2
      obtain h12 where h12: "?run2 h1 = Inr h12"
        and a12: "\<forall>k\<in>?K2. map_of (channels h12) k = map_of (channels h2) k" by auto
      from apply_all_cong[OF ag2 subset_refl, of n1] run1
      obtain h21 where h21: "?run1 h2 = Inr h21"
        and a21: "\<forall>k\<in>?K1. map_of (channels h21) k = map_of (channels h1) k" by auto
      have "map_of (channels h12) k = map_of (channels h21) k" for k
      proof (cases "k \<in> ?K2")
        case True
        then have "k \<notin> ?K1" using assms(1) by blast
        then have "map_of (channels h21) k = map_of (channels h2) k"
          by (rule apply_all_untouched[OF h21])
        moreover have "map_of (channels h12) k = map_of (channels h2) k"
          using a12 True by blast
        ultimately show ?thesis by simp
      next
        case False
        then have u: "map_of (channels h12) k = map_of (channels h1) k"
          by (rule apply_all_untouched[OF h12])
        show ?thesis
        proof (cases "k \<in> ?K1")
          case True
          with a21 have "map_of (channels h21) k = map_of (channels h1) k" by blast
          with u show ?thesis by simp
        next
          case nk1: False
          have "map_of (channels h21) k = map_of (channels h2) k"
            by (rule apply_all_untouched[OF h21 nk1])
          moreover have "map_of (channels h2) k = map_of (channels H) k"
            by (rule apply_all_untouched[OF run2 False])
          moreover have "map_of (channels h1) k = map_of (channels H) k"
            by (rule apply_all_untouched[OF run1 nk1])
          ultimately show ?thesis using u by simp
        qed
      qed
      then have maps: "map_of (channels h12) = map_of (channels h21)" by (rule ext)
      have "History.current_channel h12 = History.current_channel h21"
        using apply_all_current_channel[OF h12] apply_all_current_channel[OF h21]
          apply_all_current_channel[OF run1] apply_all_current_channel[OF run2] by simp
      from cc[OF this] maps
      have "same_history (set_current U2 (set_current U1 h12))
                         (set_current U1 (set_current U2 h21))"
        by (simp add: same_history_def)
      then show ?thesis using run1 run2 h12 h21 by (simp add: o12 o21)
    qed
  qed
qed

text \<open>
  Claim C6 as stated fails: a channel that the reducer creates is stamped with the reading
  of the clock, so the order of two updates shows in the history. From the empty history,
  with the first application at 100 and the second at 101 in both orders, creating channel
  \<open>a\<close> and then channel \<open>b\<close> leaves \<open>a\<close> with \<open>last_activity\<close> 100, and creating \<open>b\<close> and then \<open>a\<close>
  leaves it with 101.
\<close>

theorem creation_order_counterexample:
  "fst ` set (channel_updates create_a) \<inter> fst ` set (channel_updates create_b) = {} \<and>
   tool_updates create_a = [] \<and> tool_updates create_b = [] \<and>
   InternalUpdates.current_channel create_a = None \<and>
   then_reduce (history_reducer 100 (Some empty_History) (Updates create_a)) 101 create_b =
     Some (Inr a_then_b) \<and>
   then_reduce (history_reducer 100 (Some empty_History) (Updates create_b)) 101 create_a =
     Some (Inr b_then_a) \<and>
   map_of (channels a_then_b) ''a'' = Some (new_Channel 100 ''a'' ''a'') \<and>
   map_of (channels b_then_a) ''a'' = Some (new_Channel 101 ''a'' ''a'') \<and>
   \<not> same_history a_then_b b_then_a"
proof -
  have 1: "then_reduce (history_reducer 100 (Some empty_History) (Updates create_a)) 101 create_b =
     Some (Inr a_then_b)"
    by (simp add: then_reduce_def history_reducer_def apply_internal_updates_def create_a_def
          create_b_def default_updates_def default_channel_updates_def empty_History_def
          apply_channel_updates_def apply_metadata_def apply_message_deletes_def
          apply_additions_def add_new_messages_def apply_truthy_metadata_def a_then_b_def
          new_Channel_def)
  have 2: "then_reduce (history_reducer 100 (Some empty_History) (Updates create_b)) 101 create_a =
     Some (Inr b_then_a)"
    by (simp add: then_reduce_def history_reducer_def apply_internal_updates_def create_a_def
          create_b_def default_updates_def default_channel_updates_def empty_History_def
          apply_channel_updates_def apply_metadata_def apply_message_deletes_def
          apply_additions_def add_new_messages_def apply_truthy_metadata_def b_then_a_def
          new_Channel_def)
  have 3: "map_of (channels a_then_b) ''a'' = Some (new_Channel 100 ''a'' ''a'')"
    by (simp add: a_then_b_def)
  have 4: "map_of (channels b_then_a) ''a'' = Some (new_Channel 101 ''a'' ''a'')"
    by (simp add: b_then_a_def)
  have "new_Channel 100 ''a'' ''a'' \<noteq> new_Channel 101 ''a'' ''a''"
    by (simp add: new_Channel_def)
  with 3 4 have 5: "\<not> same_history a_then_b b_then_a"
    by (auto simp: same_history_def)
  have 0: "fst ` set (channel_updates create_a) \<inter> fst ` set (channel_updates create_b) = {} \<and>
   tool_updates create_a = [] \<and> tool_updates create_b = [] \<and>
   InternalUpdates.current_channel create_a = None"
    by (simp add: create_a_def create_b_def default_updates_def)
  from 0 1 2 3 4 5 show ?thesis by blast
qed

lemma apply_channel_updates_clock:
  "delete_before cu = None \<Longrightarrow>
   apply_channel_updates n cid cu ch = apply_channel_updates n' cid cu ch"
  by (simp add: apply_channel_updates_def Let_def split: sum.splits)

lemma apply_all_clock:
  "\<forall>(cid, cu) \<in> set cus. map_of (channels H) cid \<noteq> None \<and> delete_before cu = None \<Longrightarrow>
   apply_all_channel_updates n H cus = apply_all_channel_updates n' H cus"
proof (induction cus arbitrary: H)
  case Nil
  then show ?case by simp
next
  case (Cons p cus)
  obtain c0 cu0 where p: "p = (c0, cu0)" by (cases p)
  from Cons.prems p obtain ch where ch: "map_of (channels H) c0 = Some ch"
    and db: "delete_before cu0 = None" by auto
  have same: "apply_channel_updates n c0 cu0 ch = apply_channel_updates n' c0 cu0 ch"
    by (rule apply_channel_updates_clock[OF db])
  show ?case
  proof (cases "apply_channel_updates n' c0 cu0 ch")
    case (Inl e)
    then show ?thesis using p ch same by simp
  next
    case (Inr ch')
    let ?H = "H\<lparr>channels := AList.update c0 ch' (channels H)\<rparr>"
    have "\<forall>(cid, cu) \<in> set cus. map_of (channels ?H) cid \<noteq> None \<and> delete_before cu = None"
      using Cons.prems by (auto simp: update_conv')
    from Cons.IH[OF this] show ?thesis using p ch same Inr by simp
  qed
qed

lemma apply_all_keeps_channels:
  "apply_all_channel_updates n H cus = Inr H' \<Longrightarrow> map_of (channels H) k \<noteq> None \<Longrightarrow>
   map_of (channels H') k \<noteq> None"
proof (induction cus arbitrary: H)
  case Nil
  then show ?case by simp
next
  case (Cons p cus)
  obtain c0 cu0 where p: "p = (c0, cu0)" by (cases p)
  let ?ch = "case map_of (channels H) c0 of None \<Rightarrow> new_Channel n c0 c0 | Some c \<Rightarrow> c"
  from Cons.prems(1) p obtain ch' where
    rest: "apply_all_channel_updates n (H\<lparr>channels := AList.update c0 ch' (channels H)\<rparr>) cus = Inr H'"
    by (auto simp: Let_def split: sum.splits)
  have "map_of (channels (H\<lparr>channels := AList.update c0 ch' (channels H)\<rparr>)) k \<noteq> None"
    using Cons.prems(2) by (simp add: update_conv')
  from Cons.IH[OF rest this] show ?case .
qed

lemma reducer_clock:
  assumes "tool_updates U = []" and "no_clock_reading H U"
  shows "history_reducer n (Some H) (Updates U) = history_reducer n' (Some H) (Updates U)"
  using apply_all_clock[of "channel_updates U" H n n'] assms
  by (simp add: reducer_without_tool_updates no_clock_reading_def)

lemma then_reduce_clock:
  assumes "tool_updates U = []" and "tool_updates V = []"
    and "no_clock_reading H U" and "no_clock_reading H V"
  shows "then_reduce (history_reducer n (Some H) (Updates U)) m V =
         then_reduce (history_reducer n' (Some H) (Updates U)) m' V"
proof -
  have first: "history_reducer n (Some H) (Updates U) = history_reducer n' (Some H) (Updates U)"
    by (rule reducer_clock[OF assms(1,3)])
  show ?thesis
  proof (cases "apply_all_channel_updates n' H (channel_updates U)")
    case (Inl e)
    then show ?thesis unfolding first
      by (simp add: then_reduce_def reducer_without_tool_updates[OF assms(1)])
  next
    case (Inr H1)
    have "no_clock_reading (set_current U H1) V"
      using assms(4) apply_all_keeps_channels[OF Inr]
      by (auto simp: no_clock_reading_def)
    from reducer_clock[OF assms(2) this, of m m'] Inr show ?thesis unfolding first
      by (simp add: then_reduce_def reducer_without_tool_updates[OF assms(1)])
  qed
qed

text \<open>
  Claim C6 as amended. Let two \<open>InternalUpdates\<close> have diffs for disjoint sets of channels
  that all exist in the history, no \<open>delete_before\<close>, no tool updates, and at most one of them
  a current channel. Whatever the clock reads at the four applications, applying the first
  and then the second gives the same history as applying the second and then the first;
  when one order raises, so does the other.
\<close>

theorem disjoint_updates_of_existing_channels_commute:
  assumes "fst ` set (channel_updates U1) \<inter> fst ` set (channel_updates U2) = {}"
    and "tool_updates U1 = []" and "tool_updates U2 = []"
    and "InternalUpdates.current_channel U1 = None \<or> InternalUpdates.current_channel U2 = None"
    and "no_clock_reading H U1" and "no_clock_reading H U2"
  shows "(\<exists>A B. then_reduce (history_reducer t1 (Some H) (Updates U1)) t2 U2 = Some (Inr A) \<and>
               then_reduce (history_reducer t3 (Some H) (Updates U2)) t4 U1 = Some (Inr B) \<and>
               same_history A B) \<or>
         (\<exists>e e'. then_reduce (history_reducer t1 (Some H) (Updates U1)) t2 U2 = Some (Inl e) \<and>
               then_reduce (history_reducer t3 (Some H) (Updates U2)) t4 U1 = Some (Inl e'))"
proof -
  have "then_reduce (history_reducer t3 (Some H) (Updates U2)) t4 U1 =
        then_reduce (history_reducer t2 (Some H) (Updates U2)) t1 U1"
    by (rule then_reduce_clock[OF assms(3,2,6,5)])
  with disjoint_updates_commute_at_readings[OF assms(1-4), of t1 H t2] show ?thesis by simp
qed

theorem disjoint_updates_of_existing_channels_commute_witness:
  "fst ` set (channel_updates S2_updates) \<inter> fst ` set (channel_updates other_channel_updates) = {} \<and>
   tool_updates S2_updates = [] \<and> tool_updates other_channel_updates = [] \<and>
   InternalUpdates.current_channel S2_updates = None \<and>
   no_clock_reading S2_two_channels S2_updates \<and>
   no_clock_reading S2_two_channels other_channel_updates \<and>
   (\<exists>A B. then_reduce (history_reducer 100 (Some S2_two_channels) (Updates S2_updates)) 101
             other_channel_updates = Some (Inr A) \<and>
          then_reduce (history_reducer 100 (Some S2_two_channels) (Updates other_channel_updates)) 101
             S2_updates = Some (Inr B) \<and>
          same_history A B)"
proof -
  have d: "fst ` set (channel_updates S2_updates) \<inter>
           fst ` set (channel_updates other_channel_updates) = {}"
    by (simp add: S2_updates_def other_channel_updates_def default_updates_def)
  have t1: "tool_updates S2_updates = []" by (simp add: S2_updates_def default_updates_def)
  have t2: "tool_updates other_channel_updates = []" by (simp add: other_channel_updates_def)
  have c: "InternalUpdates.current_channel S2_updates = None"
    by (simp add: S2_updates_def default_updates_def)
  have n1: "no_clock_reading S2_two_channels S2_updates"
    by (simp add: no_clock_reading_def S2_two_channels_def S2_updates_def default_updates_def
          default_channel_updates_def)
  have n2: "no_clock_reading S2_two_channels other_channel_updates"
    by (simp add: no_clock_reading_def S2_two_channels_def other_channel_updates_def
          default_channel_updates_def)
  have ok: "\<exists>A. then_reduce (history_reducer 100 (Some S2_two_channels) (Updates S2_updates)) 101
             other_channel_updates = Some (Inr A)"
    by (simp add: then_reduce_def history_reducer_def apply_internal_updates_def
          S2_two_channels_def S2_updates_def default_updates_def
          other_channel_updates_def default_channel_updates_def
          apply_channel_updates_def apply_message_deletes_def)
  from disjoint_updates_of_existing_channels_commute
         [OF d t1 t2 disjI1[OF c] n1 n2, of 100 101 100 101] ok
  have "\<exists>A B. then_reduce (history_reducer 100 (Some S2_two_channels) (Updates S2_updates)) 101
             other_channel_updates = Some (Inr A) \<and>
          then_reduce (history_reducer 100 (Some S2_two_channels) (Updates other_channel_updates)) 101
             S2_updates = Some (Inr B) \<and>
          same_history A B"
    by auto
  with d t1 t2 c n1 n2 show ?thesis by blast
qed

section \<open>Assembling with no budget\<close>




















end
